theory Spec2Isabelle
  imports Complex_Main "HOL-Library.Sublist"
begin

section \<open>Strings\<close>

text \<open>
  A JavaScript string is a sequence of UTF-16 code units, each a number below 65536;
  no function below depends on that bound. The text of the form and the literals of
  the source are kept as \<^typ>\<open>string\<close>, the strings whose code units are below 256 (ASCII
  and Latin-1), one \<^typ>\<open>char\<close> for one code unit; \<open>units\<close> reads such a string as the
  sequence of its code units.

  \<^verbatim>\<open>String.prototype.toLowerCase\<close> follows the case tables of Unicode. On a string of
  code units below 256 they say: A to Z and the Latin-1 capitals except the
  multiplication sign move up by 32, every other unit stays. Beyond these strings the
  tables are a parameter of the model, the function \<open>unicode\<close>; it may change the length
  of a string.
\<close>

type_synonym js_string = "nat list"

definition units :: "string \<Rightarrow> js_string" where
  "units s = map of_char s"

definition lower_unit :: "nat \<Rightarrow> nat" where
  "lower_unit u =
     (if (65 \<le> u \<and> u \<le> 90) \<or> (192 \<le> u \<and> u \<le> 222 \<and> u \<noteq> 215) then u + 32 else u)"

definition toLowerCase :: "(js_string \<Rightarrow> js_string) \<Rightarrow> js_string \<Rightarrow> js_string" where
  "toLowerCase unicode s = (if list_all (\<lambda>u. u < 256) s then map lower_unit s else unicode s)"

definition is_az09 :: "nat \<Rightarrow> bool" where
  \<comment> \<open>the character class \<^verbatim>\<open>[a-z0-9]\<close>\<close>
  "is_az09 u = ((97 \<le> u \<and> u \<le> 122) \<or> (48 \<le> u \<and> u \<le> 57))"

fun replace_non_az09 :: "js_string \<Rightarrow> js_string" where
  \<comment> \<open>\<^verbatim>\<open>.replace(/[^a-z0-9]/g, "_")\<close>: every code unit that matches, left to right,
      becomes an underscore (code unit 95)\<close>
  "replace_non_az09 [] = []"
| "replace_non_az09 (u # us) =
     (if is_az09 u then u # replace_non_az09 us else 95 # replace_non_az09 us)"

definition is_high_surrogate :: "nat \<Rightarrow> bool" where
  \<comment> \<open>the code units D800 to DBFF\<close>
  "is_high_surrogate u = (55296 \<le> u \<and> u \<le> 56319)"

definition is_low_surrogate :: "nat \<Rightarrow> bool" where
  \<comment> \<open>the code units DC00 to DFFF\<close>
  "is_low_surrogate u = (56320 \<le> u \<and> u \<le> 57343)"

fun well_formed :: "js_string \<Rightarrow> bool" where
  \<comment> \<open>no surrogate stands alone: every high surrogate is followed by a low one, and
      no low surrogate stands anywhere else\<close>
  "well_formed [] = True"
| "well_formed [u] = (\<not> is_high_surrogate u \<and> \<not> is_low_surrogate u)"
| "well_formed (u # v # us) =
     (if is_high_surrogate u then is_low_surrogate v \<and> well_formed us
      else \<not> is_low_surrogate u \<and> well_formed (v # us))"

definition is_js_space :: "nat \<Rightarrow> bool" where
  \<comment> \<open>the white space and the line terminators that \<^verbatim>\<open>trim\<close> strips\<close>
  "is_js_space u =
     ((9 \<le> u \<and> u \<le> 13) \<or> u = 32 \<or> u = 160 \<or> u = 5760 \<or> (8192 \<le> u \<and> u \<le> 8202) \<or>
      u = 8232 \<or> u = 8233 \<or> u = 8239 \<or> u = 8287 \<or> u = 12288 \<or> u = 65279)"

definition trim_units :: "js_string \<Rightarrow> js_string" where
  "trim_units s = rev (dropWhile is_js_space (rev (dropWhile is_js_space s)))"

section \<open>Configuration\<close>

record config =
  maxQueriesSearch :: nat
  maxQueriesDiscover :: nat
  concurrency :: nat
  perRequestTimeoutMs :: nat
  globalTimeoutMs :: nat
  interRequestDelayMs :: nat
  historyLimit :: nat

definition CONFIG :: config where
  "CONFIG = \<lparr> maxQueriesSearch = 40, maxQueriesDiscover = 40, concurrency = 6,
              perRequestTimeoutMs = 2500, globalTimeoutMs = 12000,
              interRequestDelayMs = 30, historyLimit = 15 \<rparr>"

section \<open>The URL and the callback name\<close>

datatype error = URIError

datatype encoded = PercentEncoded js_string

datatype url = SuggestUrl js_string encoded

definition encodeURIComponent :: "js_string \<Rightarrow> error + encoded" where
  \<comment> \<open>a string in which a surrogate stands alone has no UTF-8 form:
      \<^verbatim>\<open>encodeURIComponent\<close> throws; the characters of the escaped text are not
      spelled out, \<open>PercentEncoded s\<close> stands for the escaped form of \<open>s\<close>\<close>
  "encodeURIComponent s = (if well_formed s then Inr (PercentEncoded s) else Inl URIError)"

definition buildJSONPUrl :: "(js_string \<Rightarrow> js_string) \<Rightarrow> js_string \<Rightarrow> error + url" where
  \<comment> \<open>\<open>SuggestUrl first encoded\<close> stands for the address
      \<^verbatim>\<open>https://sg.media-imdb.com/suggests/<first>/<encoded>.json\<close>\<close>
  "buildJSONPUrl unicode q =
     (let c = toLowerCase unicode (take 1 (trim_units q));
          first = (if c = [] then units ''a'' else c)
      in case encodeURIComponent q of
           Inl e \<Rightarrow> Inl e
         | Inr enc \<Rightarrow> Inr (SuggestUrl first enc))"

definition jsonpCallbackName :: "(js_string \<Rightarrow> js_string) \<Rightarrow> js_string \<Rightarrow> js_string" where
  "jsonpCallbackName unicode q = units ''imdb$'' @ replace_non_az09 (toLowerCase unicode q)"

definition spec_callbackName :: "(js_string \<Rightarrow> js_string) \<Rightarrow> js_string \<Rightarrow> js_string" where
  \<comment> \<open>The name as the specification words it: \<^verbatim>\<open>suggest$\<close>, then the query lowercased
      with everything but letters and digits removed.\<close>
  "spec_callbackName unicode q = units ''suggest$'' @ filter is_az09 (toLowerCase unicode q)"

section \<open>Query expansion\<close>

definition set_add :: "'a list \<Rightarrow> 'a \<Rightarrow> 'a list" where
  \<comment> \<open>\<^verbatim>\<open>Set.prototype.add\<close> on a set kept in insertion order\<close>
  "set_add seen x = (if x \<in> set seen then seen else seen @ [x])"

definition spread_set :: "'a list \<Rightarrow> 'a list" where
  \<comment> \<open>\<^verbatim>\<open>[...new Set(q)]\<close>: the first occurrence of every element, in order\<close>
  "spread_set q = foldl set_add [] q"

definition letters :: string where
  "letters = ''abcdefghijklmnopqrstuvwxyz''"

definition digits :: string where
  "digits = ''0123456789''"

definition push_each :: "string \<Rightarrow> string \<Rightarrow> string list \<Rightarrow> string list" where
  \<comment> \<open>\<^verbatim>\<open>for (const ch of chars) q.push(pre + ch)\<close>\<close>
  "push_each pre chars q = foldl (\<lambda>acc ch. acc @ [pre @ [ch]]) q chars"

definition expandQueries_q :: "string \<Rightarrow> bool \<Rightarrow> string list" where
  \<comment> \<open>the local array \<^verbatim>\<open>q\<close> of \<^verbatim>\<open>expandQueries\<close> when it reaches the \<^verbatim>\<open>return\<close>\<close>
  "expandQueries_q base useVariations =
     (if base \<noteq> [] then
        (let q = [base] in
         if useVariations then
           (let q = q @ [base @ '' movie'', base @ '' series'', base @ '' season''];
                q = push_each (base @ '' '') letters q
            in push_each (base @ '' '') digits q)
         else q)
      else
        (let q = [''the'', ''new'', ''best'', ''top'', ''movie'', ''series'', ''2024'', ''2025'']
         in push_each [] letters q))"

definition expandQueries :: "string \<Rightarrow> bool \<Rightarrow> string list" where
  "expandQueries base useVariations =
     (if base \<noteq> [] then
        take (maxQueriesSearch CONFIG) (spread_set (expandQueries_q base useVariations))
      else
        take (maxQueriesDiscover CONFIG) (spread_set (expandQueries_q base useVariations)))"

section \<open>Raw items, entries and the catalog\<close>

text \<open>
  A raw item is whatever the remote payload lists under \<^verbatim>\<open>d\<close>: a value that is not an
  object (\<^verbatim>\<open>null\<close>, a number, a string), or an object whose fields may all be absent.
  A field that is absent, \<^verbatim>\<open>undefined\<close> or \<^verbatim>\<open>null\<close> is \<^const>\<open>None\<close>. Identifiers,
  labels and URLs are strings; years, ranks and image sizes are integers (the numbers
  the endpoint sends), so that the comparator of the sort is a consistent one.
\<close>

record image =
  imageUrl :: "string option"
  width :: "int option"
  height :: "int option"

record raw_item =
  item_id :: "string option"
  item_l :: "string option"
  item_q :: "string option"
  item_y :: "int option"
  item_rank :: "int option"
  item_i :: "image option"

datatype raw = NonObject | Obj raw_item

record entry =
  entry_id :: string
  title :: string
  kind :: string
  year :: "int option"
  rank :: "int option"
  href :: string
  image_url :: "string option"
  image_width :: "int option"
  image_height :: "int option"

record catalog =
  len :: nat
  titles :: "entry list"

definition str_or :: "string option \<Rightarrow> string \<Rightarrow> string" where
  \<comment> \<open>\<^verbatim>\<open>v || dflt\<close> on an optional string: the empty string is falsy\<close>
  "str_or v dflt = (case v of None \<Rightarrow> dflt | Some s \<Rightarrow> if s = [] then dflt else s)"

definition str_or_null :: "string option \<Rightarrow> string option" where
  \<comment> \<open>\<^verbatim>\<open>v || null\<close> on an optional string\<close>
  "str_or_null v = (case v of None \<Rightarrow> None | Some s \<Rightarrow> if s = [] then None else Some s)"

definition num_or_null :: "int option \<Rightarrow> int option" where
  \<comment> \<open>\<^verbatim>\<open>v || null\<close> on an optional number: zero is falsy\<close>
  "num_or_null v = (case v of None \<Rightarrow> None | Some n \<Rightarrow> if n = 0 then None else Some n)"

definition starts_tt :: "string \<Rightarrow> bool" where
  \<comment> \<open>\<^verbatim>\<open>/^tt/.test(id)\<close>\<close>
  "starts_tt s = (take 2 s = ''tt'')"

definition accepted_id :: "raw \<Rightarrow> string option" where
  \<comment> \<open>the two \<^verbatim>\<open>continue\<close> guards of the first loop: the identifier of an item that
      passes them, \<^const>\<open>None\<close> for an item that is skipped\<close>
  "accepted_id x =
     (case x of
        NonObject \<Rightarrow> None
      | Obj it \<Rightarrow>
          (case item_id it of
             None \<Rightarrow> None
           | Some i \<Rightarrow> if i = [] \<or> \<not> starts_tt i then None else Some i))"

definition to_entry :: "string \<Rightarrow> raw_item \<Rightarrow> bool \<Rightarrow> entry" where
  \<comment> \<open>the object literal \<^verbatim>\<open>obj\<close>\<close>
  "to_entry i it wantImages =
     \<lparr> entry_id = i,
       title = str_or (item_l it) [],
       kind = str_or (item_q it) [],
       year = item_y it,
       rank = item_rank it,
       href = ''https://www.imdb.com/title/'' @ i @ ''/'',
       image_url =
         (if wantImages then str_or_null (case item_i it of None \<Rightarrow> None | Some im \<Rightarrow> imageUrl im)
          else None),
       image_width =
         (if wantImages then num_or_null (case item_i it of None \<Rightarrow> None | Some im \<Rightarrow> width im)
          else None),
       image_height =
         (if wantImages then num_or_null (case item_i it of None \<Rightarrow> None | Some im \<Rightarrow> height im)
          else None) \<rparr>"

fun collect :: "raw list \<Rightarrow> bool \<Rightarrow> entry list" where
  \<comment> \<open>the first loop of \<^verbatim>\<open>normalize\<close>: the array \<^verbatim>\<open>out\<close>\<close>
  "collect [] wantImages = []"
| "collect (x # xs) wantImages =
     (case x of
        NonObject \<Rightarrow> collect xs wantImages
      | Obj it \<Rightarrow>
          (case accepted_id x of
             None \<Rightarrow> collect xs wantImages
           | Some i \<Rightarrow> to_entry i it wantImages # collect xs wantImages))"

fun dedup_by_id :: "string list \<Rightarrow> entry list \<Rightarrow> entry list" where
  \<comment> \<open>the second loop: \<^verbatim>\<open>seen\<close> is the set of identifiers met so far, the result the
      array \<^verbatim>\<open>unique\<close>\<close>
  "dedup_by_id seen [] = []"
| "dedup_by_id seen (x # xs) =
     (if entry_id x \<in> set seen then dedup_by_id seen xs
      else x # dedup_by_id (entry_id x # seen) xs)"

datatype number = Fin int | PosInf | NegInf | NaN

definition rank_or_inf :: "int option \<Rightarrow> number" where
  \<comment> \<open>\<^verbatim>\<open>rank ?? Number.POSITIVE_INFINITY\<close>\<close>
  "rank_or_inf r = (case r of None \<Rightarrow> PosInf | Some n \<Rightarrow> Fin n)"

fun minus_number :: "number \<Rightarrow> number \<Rightarrow> number" where
  "minus_number (Fin a) (Fin b) = Fin (a - b)"
| "minus_number NaN _ = NaN"
| "minus_number _ NaN = NaN"
| "minus_number PosInf PosInf = NaN"
| "minus_number NegInf NegInf = NaN"
| "minus_number PosInf _ = PosInf"
| "minus_number NegInf _ = NegInf"
| "minus_number (Fin a) PosInf = NegInf"
| "minus_number (Fin a) NegInf = PosInf"

definition by_rank :: "entry \<Rightarrow> entry \<Rightarrow> number" where
  \<comment> \<open>the comparator passed to \<^verbatim>\<open>unique.sort\<close>\<close>
  "by_rank a b = minus_number (rank_or_inf (rank a)) (rank_or_inf (rank b))"

fun positive :: "number \<Rightarrow> bool" where
  \<comment> \<open>the comparator's verdict "a after b"; \<^verbatim>\<open>sort\<close> reads \<^verbatim>\<open>NaN\<close> as \<^verbatim>\<open>+0\<close>\<close>
  "positive (Fin n) = (0 < n)"
| "positive PosInf = True"
| "positive NegInf = False"
| "positive NaN = False"

fun sort_insert :: "('a \<Rightarrow> 'a \<Rightarrow> number) \<Rightarrow> 'a \<Rightarrow> 'a list \<Rightarrow> 'a list" where
  "sort_insert cmp x [] = [x]"
| "sort_insert cmp x (y # ys) =
     (if positive (cmp x y) then y # sort_insert cmp x ys else x # y # ys)"

definition array_sort :: "('a \<Rightarrow> 'a \<Rightarrow> number) \<Rightarrow> 'a list \<Rightarrow> 'a list" where
  \<comment> \<open>\<^verbatim>\<open>Array.prototype.sort\<close> with a comparator: the language requires a stable sort;
      this is the stable insertion sort, every element placed before the elements
      to its right that it does not compare greater than\<close>
  "array_sort cmp xs = foldr (sort_insert cmp) xs []"

definition normalize_unique :: "raw list \<Rightarrow> bool \<Rightarrow> entry list" where
  \<comment> \<open>the array \<^verbatim>\<open>unique\<close> before it is sorted\<close>
  "normalize_unique items wantImages = dedup_by_id [] (collect items wantImages)"

definition normalize_items :: "raw list \<Rightarrow> bool \<Rightarrow> catalog" where
  \<comment> \<open>\<^verbatim>\<open>normalize\<close> of the source\<close>
  "normalize_items items wantImages =
     (let unique = array_sort by_rank (normalize_unique items wantImages)
      in \<lparr> len = length unique, titles = unique \<rparr>)"

definition raw_of_entry :: "entry \<Rightarrow> raw" where
  \<comment> \<open>The raw equivalent of an entry, as the specification's round trip reads it: the
      raw item that carries the entry's fields under the names \<^verbatim>\<open>normalize\<close> reads.\<close>
  "raw_of_entry e =
     Obj \<lparr> item_id = Some (entry_id e), item_l = Some (title e), item_q = Some (kind e),
           item_y = year e, item_rank = rank e,
           item_i = Some \<lparr> imageUrl = image_url e, width = image_width e,
                           height = image_height e \<rparr> \<rparr>"

definition rank_le :: "int option \<Rightarrow> int option \<Rightarrow> bool" where
  \<comment> \<open>ascending by rank, a missing rank after every number\<close>
  "rank_le a b =
     (case b of None \<Rightarrow> True | Some y \<Rightarrow> (case a of None \<Rightarrow> False | Some x \<Rightarrow> x \<le> y))"

definition sample_items :: "raw list" where
  \<comment> \<open>a payload with a value that is no object, a name identifier, a missing
      identifier, a repeated identifier, equal ranks and a missing rank\<close>
  "sample_items =
     [Obj \<lparr> item_id = Some ''tt2'', item_l = Some ''B'', item_q = None, item_y = None,
            item_rank = Some 2, item_i = None \<rparr>,
      NonObject,
      Obj \<lparr> item_id = Some ''nm1'', item_l = Some ''N'', item_q = None, item_y = None,
            item_rank = Some 0, item_i = None \<rparr>,
      Obj \<lparr> item_id = Some ''tt3'', item_l = None, item_q = None, item_y = Some 1999,
            item_rank = None, item_i = None \<rparr>,
      Obj \<lparr> item_id = Some ''tt1'', item_l = Some ''A'', item_q = Some ''feature'',
            item_y = None, item_rank = Some 1,
            item_i = Some \<lparr> imageUrl = Some [], width = Some 0, height = Some 0 \<rparr> \<rparr>,
      Obj \<lparr> item_id = Some ''tt2'', item_l = Some ''again'', item_q = None, item_y = None,
            item_rank = Some 0, item_i = None \<rparr>,
      Obj \<lparr> item_id = None, item_l = Some ''no id'', item_q = None, item_y = None,
            item_rank = Some 0, item_i = None \<rparr>,
      Obj \<lparr> item_id = Some ''tt4'', item_l = Some ''D'', item_q = None, item_y = None,
            item_rank = Some 1, item_i = None \<rparr>]"

section \<open>The JSONP loader\<close>

text \<open>
  The argument the remote script passes to the callback is a falsy value or a truthy
  one; of a truthy one only \<^verbatim>\<open>d\<close> is read: \<^const>\<open>Some\<close> of the array, or \<^const>\<open>None\<close> when
  \<^verbatim>\<open>d\<close> is absent, falsy or not an array. The promise of \<^verbatim>\<open>loadSuggest\<close> resolves with
  \<^verbatim>\<open>null\<close> (\<^const>\<open>None\<close>) or with such a value; it rejects when its executor throws.
\<close>

type_synonym suggestion = "raw list option"

datatype jsonp_arg = Falsy | Payload suggestion

datatype 'a promise = Pending | Resolved 'a | Rejected error

datatype transport = TimerFired | ScriptError | CallbackInvoked jsonp_arg

record fetch =
  finished :: bool
  window_cb :: "js_string option"
  timer_armed :: bool
  script_src :: "url option"
  script_attached :: bool
  settled :: "suggestion option promise"

definition cleanup :: "fetch \<Rightarrow> fetch" where
  "cleanup f = f\<lparr> window_cb := None, timer_armed := False, script_attached := False \<rparr>"

definition finish :: "suggestion option \<Rightarrow> fetch \<Rightarrow> fetch" where
  \<comment> \<open>\<^verbatim>\<open>if (!done) { done = true; cleanup(); resolve(val); }\<close>\<close>
  "finish val f =
     (if \<not> finished f then (cleanup (f\<lparr> finished := True \<rparr>))\<lparr> settled := Resolved val \<rparr>
      else f)"

definition loadSuggest :: "(js_string \<Rightarrow> js_string) \<Rightarrow> js_string \<Rightarrow> nat \<Rightarrow> fetch" where
  \<comment> \<open>the executor of the promise, run to its end. Its first statement builds the URL:
      when that throws, the executor ends there and the promise is rejected, with no
      timer, no callback and no script element. Otherwise the timer is armed, the
      callback is registered under its name and the script element is in the document.\<close>
  "loadSuggest unicode q timeoutMs =
     (case buildJSONPUrl unicode q of
        Inl e \<Rightarrow>
          \<lparr> finished = False, window_cb = None, timer_armed = False, script_src = None,
            script_attached = False, settled = Rejected e \<rparr>
      | Inr u \<Rightarrow>
          \<lparr> finished = False, window_cb = Some (jsonpCallbackName unicode q),
            timer_armed = True, script_src = Some u, script_attached = True,
            settled = Pending \<rparr>)"

definition arg_or_null :: "jsonp_arg \<Rightarrow> suggestion option" where
  \<comment> \<open>\<^verbatim>\<open>data || null\<close>\<close>
  "arg_or_null a = (case a of Falsy \<Rightarrow> None | Payload d \<Rightarrow> Some d)"

definition deliver :: "fetch \<Rightarrow> transport \<Rightarrow> fetch" where
  \<comment> \<open>one transport event reaching the page: a timer that is not armed does not fire, a
      script that was never given its address raises no error, a callback that is not
      registered is not there for the script to call\<close>
  "deliver f ev =
     (case ev of
        TimerFired \<Rightarrow> if timer_armed f then finish None f else f
      | ScriptError \<Rightarrow> (case script_src f of None \<Rightarrow> f | Some _ \<Rightarrow> finish None f)
      | CallbackInvoked a \<Rightarrow>
          (case window_cb f of None \<Rightarrow> f | Some _ \<Rightarrow> finish (arg_or_null a) f))"

definition outcome :: "transport \<Rightarrow> suggestion option" where
  \<comment> \<open>the value the first transport event settles the promise with\<close>
  "outcome ev = (case ev of CallbackInvoked a \<Rightarrow> arg_or_null a | _ \<Rightarrow> None)"

section \<open>The worker pool\<close>

text \<open>
  \<^verbatim>\<open>loadAll\<close> runs on one event loop: a worker runs until its next \<^verbatim>\<open>await\<close>, and is
  resumed by a later task. The state of a call is the record \<^verbatim>\<open>pool\<close> of its local
  variables (\<^verbatim>\<open>i\<close> is \<^verbatim>\<open>cursor\<close>, \<^verbatim>\<open>done\<close> is \<^verbatim>\<open>done_count\<close>), the place every worker
  waits at, and the list of the objects handed to \<^verbatim>\<open>onProgress\<close>, oldest first. The
  progress element of the page shows the same percentages and is left out.

  The queries of a call are kept as \<^typ>\<open>string\<close>, the text the query expansion builds.
  No surrogate stands alone in such a query, so \<^verbatim>\<open>loadSuggest\<close> builds its URL, its
  promise resolves (\<open>well_formed_units\<close>, \<open>fetch_result_settles\<close>), and the \<^verbatim>\<open>await\<close> of a
  worker always resumes with a value.

  \<^verbatim>\<open>Math.round((done / queries.length) * 100)\<close> is computed as the language computes
  it, on doubles: the quotient is rounded to the nearest double, its product with 100
  is rounded to the nearest double, and \<^verbatim>\<open>Math.round\<close> takes the nearest integer of
  that, halves upwards. A double is kept as the rational number it stands for. The
  range of the exponent is not bounded in the model: the quotients of two lengths of
  arrays and their hundredfold lie far inside it.
\<close>

record progress_event =
  ev_done :: nat
  ev_total :: nat
  ev_pct :: nat

datatype worker = Fetching nat | Sleeping | Exited

record pool =
  queries :: "string list"
  has_callback :: bool
  cursor :: nat
  done_count :: nat
  canceled :: bool
  results :: "raw list"
  workers :: "worker list"
  emitted :: "progress_event list"

fun bit_length :: "nat \<Rightarrow> nat" where
  \<comment> \<open>the number of binary digits of a natural number\<close>
  "bit_length n = (if n = 0 then 0 else Suc (bit_length (n div 2)))"

declare bit_length.simps [simp del]

definition binade :: "rat \<Rightarrow> int" where
  \<comment> \<open>the exponent \<open>e\<close> of a positive number: \<open>2\<^sup>e \<le> x < 2\<^sup>e\<^sup>+\<^sup>1\<close>\<close>
  "binade x =
     (if 1 \<le> x then int (bit_length (nat \<lfloor>x\<rfloor>)) - 1
      else - int (bit_length (nat (\<lceil>1 / x\<rceil> - 1))))"

definition round_half_even :: "rat \<Rightarrow> int" where
  \<comment> \<open>the nearest integer, the even one of two that are equally near\<close>
  "round_half_even y =
     (let f = \<lfloor>y\<rfloor>; r = y - of_int f
      in if r < 1 / 2 then f else if 1 / 2 < r then f + 1 else if even f then f else f + 1)"

definition to_double :: "rat \<Rightarrow> rat" where
  \<comment> \<open>the double nearest to a number: a significand of 53 binary digits, ties to the
      even significand\<close>
  "to_double x =
     (if x = 0 then 0
      else (let g = 2 powi (binade \<bar>x\<bar> - 52)
            in sgn x * of_int (round_half_even (\<bar>x\<bar> / g)) * g))"

definition pct_of :: "nat \<Rightarrow> nat \<Rightarrow> nat" where
  \<comment> \<open>\<^verbatim>\<open>Math.round((done / queries.length) * 100)\<close>; a fetch completes only on a list
      that is not empty, so \<open>n\<close> is positive wherever the source computes it\<close>
  "pct_of d n = nat \<lfloor>to_double (to_double (of_nat d / of_nat n) * 100) + 1 / 2\<rfloor>"

definition loop_head :: "nat \<Rightarrow> pool \<Rightarrow> pool" where
  \<comment> \<open>worker \<open>k\<close> at \<^verbatim>\<open>while (!canceled && i < queries.length)\<close>: it claims
      the next index and starts the fetch, or leaves the loop\<close>
  "loop_head k s =
     (if \<not> canceled s \<and> cursor s < length (queries s)
      then s\<lparr> workers := (workers s)[k := Fetching (cursor s)], cursor := cursor s + 1 \<rparr>
      else s\<lparr> workers := (workers s)[k := Exited] \<rparr>)"

definition spawn :: "pool \<Rightarrow> pool" where
  \<comment> \<open>one call of \<^verbatim>\<open>worker()\<close>, run to its first \<^verbatim>\<open>await\<close>\<close>
  "spawn s = loop_head (length (workers s)) (s\<lparr> workers := workers s @ [Exited] \<rparr>)"

fun start_workers :: "nat \<Rightarrow> pool \<Rightarrow> pool" where
  \<comment> \<open>\<^verbatim>\<open>Array.from({ length: threads }, () => worker())\<close>: the workers start one after
      the other\<close>
  "start_workers 0 s = s"
| "start_workers (Suc n) s = start_workers n (spawn s)"

definition loadAll_start :: "string list \<Rightarrow> bool \<Rightarrow> pool" where
  "loadAll_start qs cb =
     start_workers (min (concurrency CONFIG) (length qs))
       \<lparr> queries = qs, has_callback = cb, cursor = 0, done_count = 0, canceled = False,
         results = [], workers = [], emitted = [] \<rparr>"

definition suggested :: "suggestion option \<Rightarrow> raw list" where
  \<comment> \<open>\<^verbatim>\<open>data && data.d && Array.isArray(data.d)\<close>: the items pushed\<close>
  "suggested data = (case data of Some (Some d) \<Rightarrow> d | _ \<Rightarrow> [])"

definition after_fetch :: "nat \<Rightarrow> suggestion option \<Rightarrow> pool \<Rightarrow> pool" where
  \<comment> \<open>worker \<open>k\<close> from the value of \<^verbatim>\<open>await loadSuggest(q)\<close> to
      \<^verbatim>\<open>await sleep(...)\<close>\<close>
  "after_fetch k data s =
     (let d = done_count s + 1;
          n = length (queries s);
          e = \<lparr> ev_done = d, ev_total = n, ev_pct = pct_of d n \<rparr>
      in s\<lparr> results := results s @ suggested data,
            done_count := d,
            emitted := (if has_callback s then emitted s @ [e] else emitted s),
            workers := (workers s)[k := Sleeping] \<rparr>)"

datatype event = FetchSettled nat "suggestion option" | SleepElapsed nat | GlobalTimeout

definition returned :: "pool \<Rightarrow> bool" where
  \<comment> \<open>every worker has left its loop: \<^verbatim>\<open>Promise.all\<close> resolves and
      \<^verbatim>\<open>loadAll\<close> returns \<^verbatim>\<open>results\<close>\<close>
  "returned s = list_all (\<lambda>w. w = Exited) (workers s)"

definition is_fetching :: "worker \<Rightarrow> bool" where
  "is_fetching w = (case w of Fetching _ \<Rightarrow> True | _ \<Rightarrow> False)"

definition fire :: "event \<Rightarrow> pool \<Rightarrow> pool" where
  \<comment> \<open>one task of the event loop; a task that is not pending changes nothing,
      and the global timer is cleared once \<^verbatim>\<open>loadAll\<close> has returned\<close>
  "fire ev s =
     (case ev of
        FetchSettled k data \<Rightarrow>
          if k < length (workers s) \<and> is_fetching (workers s ! k) then after_fetch k data s else s
      | SleepElapsed k \<Rightarrow>
          if k < length (workers s) \<and> workers s ! k = Sleeping then loop_head k s else s
      | GlobalTimeout \<Rightarrow> if returned s then s else s\<lparr> canceled := True \<rparr>)"

definition exec :: "event list \<Rightarrow> pool \<Rightarrow> pool" where
  \<comment> \<open>the tasks of a schedule, in the order the event loop runs them\<close>
  "exec evs s = fold fire evs s"

definition progress_at :: "nat \<Rightarrow> nat \<Rightarrow> progress_event" where
  \<comment> \<open>the object \<^verbatim>\<open>{ done, total, pct }\<close> of the \<open>d\<close>-th completed fetch\<close>
  "progress_at n d = \<lparr> ev_done = d, ev_total = n, ev_pct = pct_of d n \<rparr>"

definition pool_inv :: "pool \<Rightarrow> bool" where
  \<comment> \<open>what every state of a call satisfies: each claimed index is
      completed or in flight, the callback has seen the completions in order, and a
      worker has left only after the cancellation or the end of the list\<close>
  "pool_inv s \<longleftrightarrow>
     done_count s + length (filter is_fetching (workers s)) = cursor s \<and>
     cursor s \<le> length (queries s) \<and>
     emitted s =
       (if has_callback s then map (progress_at (length (queries s))) [1..<Suc (done_count s)]
        else []) \<and>
     (Exited \<in> set (workers s) \<longrightarrow> canceled s \<or> cursor s = length (queries s))"

section \<open>The pool on a clock\<close>

text \<open>
  The order of the tasks follows from the timers. The remote end answers a query after
  some milliseconds with a script error or a call of the callback, or stays silent;
  \<^verbatim>\<open>loadSuggest\<close> settles at the answer when it comes before the per-request timeout,
  and at the timeout with \<^verbatim>\<open>null\<close> otherwise. Timers fire exactly when due and the page's
  own code takes no time; of two tasks due at the same time the one registered first
  runs first. A timer that fires late only moves the later claims of the workers
  further past the global deadline. \<^verbatim>\<open>run\<close> returns \<^verbatim>\<open>None\<close> when its fuel ends before \<^verbatim>\<open>loadAll\<close>
  returns.
\<close>

datatype reply = Silent | Answer nat transport

definition fetch_result :: "reply \<Rightarrow> nat \<times> suggestion option" where
  \<comment> \<open>after how many milliseconds the promise of \<^verbatim>\<open>loadSuggest\<close> settles, and with what\<close>
  "fetch_result r =
     (case r of
        Silent \<Rightarrow> (perRequestTimeoutMs CONFIG, None)
      | Answer t ev \<Rightarrow>
          if t < perRequestTimeoutMs CONFIG then (t, outcome ev)
          else (perRequestTimeoutMs CONFIG, None))"

definition never_answers :: "string \<Rightarrow> reply" where
  \<comment> \<open>a remote end that answers no query: every fetch runs into its timeout\<close>
  "never_answers q = Silent"

definition arrivals :: "reply \<Rightarrow> nat \<Rightarrow> transport list" where
  \<comment> \<open>the transport events of one fetch in the order they reach the
      page: the answer and the timer, the earlier first\<close>
  "arrivals r timeoutMs =
     (case r of
        Silent \<Rightarrow> [TimerFired]
      | Answer t ev \<Rightarrow> if t < timeoutMs then [ev, TimerFired] else [TimerFired, ev])"

record timed =
  pool :: pool
  now :: nat
  agenda :: "(nat \<times> event) list"

definition wake :: "(string \<Rightarrow> reply) \<Rightarrow> nat \<Rightarrow> timed \<Rightarrow> timed" where
  \<comment> \<open>the task that will resume worker \<open>k\<close> is registered: the settling of the fetch it
      has just started, or the timer of \<^verbatim>\<open>sleep\<close>\<close>
  "wake remote k t =
     (if k < length (workers (pool t)) then
        (case workers (pool t) ! k of
           Fetching my \<Rightarrow>
             (if my < length (queries (pool t)) then
                (let r = fetch_result (remote (queries (pool t) ! my))
                 in t\<lparr> agenda := agenda t @ [(now t + fst r, FetchSettled k (snd r))] \<rparr>)
              else t)
         | Sleeping \<Rightarrow>
             t\<lparr> agenda := agenda t @ [(now t + interRequestDelayMs CONFIG, SleepElapsed k)] \<rparr>
         | Exited \<Rightarrow> t)
      else t)"

fun earliest :: "(nat \<times> event) list \<Rightarrow> (nat \<times> event) option" where
  \<comment> \<open>the task that runs next: the least due time, the first registered among equals\<close>
  "earliest [] = None"
| "earliest (x # xs) =
     (case earliest xs of
        None \<Rightarrow> Some x
      | Some y \<Rightarrow> if fst y < fst x then Some y else Some x)"

definition clear_global :: "timed \<Rightarrow> timed" where
  \<comment> \<open>\<^verbatim>\<open>clearTimeout(globalTimer)\<close>, once \<^verbatim>\<open>Promise.all\<close> has resolved\<close>
  "clear_global t =
     (if returned (pool t) then t\<lparr> agenda := filter (\<lambda>x. snd x \<noteq> GlobalTimeout) (agenda t) \<rparr>
      else t)"

definition tick :: "(string \<Rightarrow> reply) \<Rightarrow> timed \<Rightarrow> timed option" where
  "tick remote t =
     (case earliest (agenda t) of
        None \<Rightarrow> None
      | Some x \<Rightarrow>
          (let t1 = t\<lparr> pool := fire (snd x) (pool t), now := fst x,
                       agenda := remove1 x (agenda t) \<rparr>;
               t2 = (case snd x of
                       FetchSettled k _ \<Rightarrow> wake remote k t1
                     | SleepElapsed k \<Rightarrow> wake remote k t1
                     | GlobalTimeout \<Rightarrow> t1)
           in Some (clear_global t2)))"

fun run :: "nat \<Rightarrow> (string \<Rightarrow> reply) \<Rightarrow> timed \<Rightarrow> timed option" where
  "run 0 remote t = (if returned (pool t) then Some t else None)"
| "run (Suc fuel) remote t =
     (if returned (pool t) then Some t
      else case tick remote t of None \<Rightarrow> None | Some t' \<Rightarrow> run fuel remote t')"

fun wake_all :: "(string \<Rightarrow> reply) \<Rightarrow> nat list \<Rightarrow> timed \<Rightarrow> timed" where
  "wake_all remote [] t = t"
| "wake_all remote (k # ks) t = wake_all remote ks (wake remote k t)"

definition loadAll_timed :: "(string \<Rightarrow> reply) \<Rightarrow> string list \<Rightarrow> bool \<Rightarrow> timed option" where
  "loadAll_timed remote qs cb =
     (let s = loadAll_start qs cb;
          t = \<lparr> pool = s, now = 0, agenda = [(globalTimeoutMs CONFIG, GlobalTimeout)] \<rparr>
      in run (2 * length qs + 1) remote
           (clear_global (wake_all remote [0..<length (workers s)] t)))"

section \<open>The session controller\<close>

text \<open>
  The page is the five elements \<^verbatim>\<open>onSubmit\<close> looks up, each \<^verbatim>\<open>None\<close> when
  \<^verbatim>\<open>document.getElementById\<close> finds none. The text of the status line and the markup of
  the result list are kept as the template they were written from. Local storage holds
  what the application wrote under its three keys; a write fails when the store is not
  writable, and \<^verbatim>\<open>safeSet\<close> swallows the failure.
\<close>

datatype status_text = Idle | Loading | LoadingPct nat | Found nat | ErrorLoading

datatype results_html = Blank | NoResults | Cards "entry list" | FailedToLoad

record page =
  q_el :: "string option"
  variations_el :: "bool option"
  images_el :: "bool option"
  status_el :: "status_text option"
  results_el :: "results_html option"

record meta =
  query :: string
  variations :: bool
  images :: bool
  timestamp :: nat

record history_entry = meta +
  result_count :: nat

record storage =
  lastResults :: "catalog option"
  lastMeta :: "meta option"
  history :: "history_entry list option"
  writable :: bool

record app =
  busy :: bool
  lastJSON :: catalog
  page :: page
  store :: storage

definition is_space :: "char \<Rightarrow> bool" where
  "is_space c = (let n = (of_char c :: nat) in (9 \<le> n \<and> n \<le> 13) \<or> n = 32 \<or> n = 160)"

definition trim :: "string \<Rightarrow> string" where
  "trim s = rev (dropWhile is_space (rev (dropWhile is_space s)))"

definition renderCards :: "catalog \<Rightarrow> results_html" where
  \<comment> \<open>the placeholder for an empty catalog, one card per title otherwise\<close>
  "renderCards model = (if titles model = [] then NoResults else Cards (titles model))"

definition history_key :: "history_entry \<Rightarrow> string" where
  "history_key h =
     query h @ ''::'' @ (if variations h then ''1'' else ''0'') @ ''::''
       @ (if images h then ''1'' else ''0'')"

fun history_loop ::
  "string list \<Rightarrow> history_entry list \<Rightarrow> history_entry list \<Rightarrow> history_entry list" where
  \<comment> \<open>the loop of \<^verbatim>\<open>pushHistory\<close>, with its \<^verbatim>\<open>break\<close> at the history limit\<close>
  "history_loop seen deduped [] = deduped"
| "history_loop seen deduped (h # hs) =
     (let fresh = history_key h \<notin> set seen;
          seen' = (if fresh then history_key h # seen else seen);
          deduped' = (if fresh then deduped @ [h] else deduped)
      in if historyLimit CONFIG \<le> length deduped' then deduped'
         else history_loop seen' deduped' hs)"

definition pushHistory :: "history_entry \<Rightarrow> storage \<Rightarrow> storage" where
  \<comment> \<open>\<^verbatim>\<open>safeGet(STORAGE.history, [])\<close>, \<^verbatim>\<open>unshift\<close>, the loop, \<^verbatim>\<open>safeSet\<close>\<close>
  "pushHistory entry st =
     (let hist = entry # (case history st of None \<Rightarrow> [] | Some h \<Rightarrow> h);
          deduped = history_loop [] [] hist
      in if writable st then st\<lparr> history := Some deduped \<rparr> else st)"

definition autosave :: "meta \<Rightarrow> app \<Rightarrow> app" where
  "autosave m a =
     (let st = store a;
          st1 = (if writable st then st\<lparr> lastResults := Some (lastJSON a) \<rparr> else st);
          st2 = (if writable st1 then st1\<lparr> lastMeta := Some m \<rparr> else st1);
          histEntry = \<lparr> query = query m, variations = variations m, images = images m,
                        timestamp = timestamp m, result_count = len (lastJSON a) \<rparr>
      in a\<lparr> store := pushHistory histEntry st2 \<rparr>)"

datatype started = Ignored | Threw | Started string bool bool

definition onSubmit_begin :: "app \<Rightarrow> started \<times> app" where
  \<comment> \<open>\<^verbatim>\<open>onSubmit\<close> from its entry to the \<^verbatim>\<open>try\<close>: the guard, the flag, the three values
      read from the form (a missing element throws at its \<^verbatim>\<open>.value\<close> or \<^verbatim>\<open>.checked\<close>), the
      two writes to the status line and the result list (a missing element throws at
      the write); all of this stands before the \<^verbatim>\<open>try\<close> block\<close>
  "onSubmit_begin a =
     (if busy a then (Ignored, a)
      else
        (let a1 = a\<lparr> busy := True \<rparr> in
         case q_el (page a1) of
           None \<Rightarrow> (Threw, a1)
         | Some v \<Rightarrow>
             (case variations_el (page a1) of
                None \<Rightarrow> (Threw, a1)
              | Some wantVar \<Rightarrow>
                  (case images_el (page a1) of
                     None \<Rightarrow> (Threw, a1)
                   | Some wantImg \<Rightarrow>
                       (case status_el (page a1) of
                          None \<Rightarrow> (Threw, a1)
                        | Some _ \<Rightarrow>
                            (let a2 = a1\<lparr> page := (page a1)\<lparr> status_el := Some Loading \<rparr> \<rparr> in
                             case results_el (page a2) of
                               None \<Rightarrow> (Threw, a2)
                             | Some _ \<Rightarrow>
                                 (Started (trim v) wantVar wantImg,
                                  a2\<lparr> page := (page a2)\<lparr> results_el := Some Blank \<rparr> \<rparr>)))))))"

definition on_progress :: "progress_event \<Rightarrow> app \<Rightarrow> app" where
  \<comment> \<open>the callback \<^verbatim>\<open>onSubmit\<close> passes to \<^verbatim>\<open>loadAll\<close>\<close>
  "on_progress e a = a\<lparr> page := (page a)\<lparr> status_el := Some (LoadingPct (ev_pct e)) \<rparr> \<rparr>"

definition onSubmit_end :: "meta \<Rightarrow> raw list \<Rightarrow> app \<Rightarrow> app" where
  \<comment> \<open>the \<^verbatim>\<open>try\<close> block from the value of \<^verbatim>\<open>await loadAll(...)\<close> on, then \<^verbatim>\<open>finally\<close>\<close>
  "onSubmit_end m raw_items a =
     (let model = normalize_items raw_items (images m);
          a1 = a\<lparr> lastJSON := model \<rparr>;
          a2 = a1\<lparr> page := (page a1)\<lparr> results_el := Some (renderCards model) \<rparr> \<rparr>;
          a3 = a2\<lparr> page := (page a2)\<lparr> status_el := Some (Found (len model)) \<rparr> \<rparr>;
          a4 = autosave m a3
      in a4\<lparr> busy := False \<rparr>)"

definition onSubmit_catch :: "app \<Rightarrow> app" where
  \<comment> \<open>the \<^verbatim>\<open>catch\<close> block, then \<^verbatim>\<open>finally\<close>; on the inputs of this model nothing inside
      the \<^verbatim>\<open>try\<close> block throws, so no session below takes it\<close>
  "onSubmit_catch a =
     (let a1 = a\<lparr> page := (page a)\<lparr> status_el := Some ErrorLoading \<rparr> \<rparr>;
          a2 = a1\<lparr> page := (page a1)\<lparr> results_el := Some FailedToLoad \<rparr> \<rparr>
      in a2\<lparr> busy := False \<rparr>)"

datatype submitted = Declined | Raised | Hung | Completed "progress_event list"

definition onSubmit :: "(string \<Rightarrow> reply) \<Rightarrow> nat \<Rightarrow> app \<Rightarrow> submitted \<times> app" where
  \<comment> \<open>one submit, run to its end against a remote end, \<open>clock\<close> being \<^verbatim>\<open>Date.now()\<close> at
      the submit: what became of it and the state it leaves\<close>
  "onSubmit remote clock a =
     (case onSubmit_begin a of
        (Ignored, a') \<Rightarrow> (Declined, a')
      | (Threw, a') \<Rightarrow> (Raised, a')
      | (Started q wantVar wantImg, a1) \<Rightarrow>
          (case loadAll_timed remote (expandQueries q wantVar) True of
             None \<Rightarrow> (Hung, a1)
           | Some t \<Rightarrow>
               (let a2 = fold on_progress (emitted (pool t)) a1;
                    m = \<lparr> query = q, variations = wantVar, images = wantImg,
                          timestamp = clock + now t \<rparr>
                in (Completed (emitted (pool t)), onSubmit_end m (results (pool t)) a2))))"

definition percents :: "submitted \<Rightarrow> nat list" where
  \<comment> \<open>the percentages the status line showed during a session\<close>
  "percents r = (case r of Completed evs \<Rightarrow> map ev_pct evs | _ \<Rightarrow> [])"

definition idle_app :: app where
  "idle_app =
     \<lparr> busy = False, lastJSON = \<lparr> len = 0, titles = [] \<rparr>,
       page = \<lparr> q_el = Some '' '', variations_el = Some False, images_el = Some True,
                status_el = Some Idle, results_el = Some Blank \<rparr>,
       store = \<lparr> lastResults = None, lastMeta = None, history = None, writable = True \<rparr> \<rparr>"

section \<open>Helper lemmas: strings and sets in insertion order\<close>

lemma length_replace_non_az09: "length (replace_non_az09 s) = length s"
  by (induction s) auto

lemma nth_replace_non_az09:
  "i < length s \<Longrightarrow> replace_non_az09 s ! i = (if is_az09 (s ! i) then s ! i else 95)"
proof (induction s arbitrary: i)
  case Nil
  then show ?case by simp
next
  case (Cons c cs)
  then show ?case by (cases i) auto
qed

lemma well_formed_below_surrogates:
  "list_all (\<lambda>u. u < 55296) s \<Longrightarrow> well_formed s"
  by (induction s rule: well_formed.induct)
    (auto simp: is_high_surrogate_def is_low_surrogate_def)

lemma units_below_256: "list_all (\<lambda>u. u < 256) (units s)"
proof -
  have "(of_char c :: nat) < 256" for c
    using of_char_mod_256 [of c, where ?'a = nat] by (metis mod_less_divisor zero_less_numeral)
  then show ?thesis
    by (simp add: units_def list_all_iff)
qed

lemma well_formed_units: "well_formed (units s)"
proof -
  have "list_all (\<lambda>u. u < 55296) (units s)"
    using units_below_256 [of s] by (auto simp: list_all_iff)
  then show ?thesis by (rule well_formed_below_surrogates)
qed

lemma loadSuggest_well_formed:
  "well_formed q \<Longrightarrow>
     loadSuggest unicode q timeoutMs =
       \<lparr> finished = False, window_cb = Some (jsonpCallbackName unicode q), timer_armed = True,
         script_src = Some (SuggestUrl
           (if toLowerCase unicode (take 1 (trim_units q)) = [] then units ''a''
            else toLowerCase unicode (take 1 (trim_units q)))
           (PercentEncoded q)),
         script_attached = True, settled = Pending \<rparr>"
  by (simp add: loadSuggest_def buildJSONPUrl_def encodeURIComponent_def Let_def)

lemma loadSuggest_lone_surrogate:
  "\<not> well_formed q \<Longrightarrow>
     loadSuggest unicode q timeoutMs =
       \<lparr> finished = False, window_cb = None, timer_armed = False, script_src = None,
         script_attached = False, settled = Rejected URIError \<rparr>"
  by (simp add: loadSuggest_def buildJSONPUrl_def encodeURIComponent_def Let_def)

lemma foldl_set_add_distinct:
  "distinct xs \<Longrightarrow> set acc \<inter> set xs = {} \<Longrightarrow> foldl set_add acc xs = acc @ xs"
proof (induction xs arbitrary: acc)
  case Nil
  then show ?case by simp
next
  case (Cons x xs)
  from Cons.prems have "set_add acc x = acc @ [x]"
    by (simp add: set_add_def)
  moreover from Cons.prems have "distinct xs" "set (acc @ [x]) \<inter> set xs = {}"
    by auto
  ultimately show ?case using Cons.IH [of "acc @ [x]"] by simp
qed

lemma spread_set_distinct: "distinct xs \<Longrightarrow> spread_set xs = xs"
  using foldl_set_add_distinct [of xs "[]"] by (simp add: spread_set_def)

lemma push_each_map: "push_each p cs q = q @ map (\<lambda>ch. p @ [ch]) cs"
  unfolding push_each_def by (induction cs arbitrary: q) auto

section \<open>Helper lemmas: the sort, the two loops of normalize\<close>

lemma positive_by_rank: "positive (by_rank a b) \<longleftrightarrow> \<not> rank_le (rank a) (rank b)"
  by (cases "rank a"; cases "rank b") (auto simp: by_rank_def rank_or_inf_def rank_le_def)

lemma rank_le_refl: "rank_le a a"
  by (cases a) (auto simp: rank_le_def)

lemma rank_le_trans: "rank_le a b \<Longrightarrow> rank_le b c \<Longrightarrow> rank_le a c"
  by (cases a; cases b; cases c) (auto simp: rank_le_def)

lemma rank_le_total: "rank_le a b \<or> rank_le b a"
  by (cases a; cases b) (auto simp: rank_le_def)

lemma set_sort_insert: "set (sort_insert cmp x ys) = insert x (set ys)"
  by (induction ys) auto

lemma set_array_sort: "set (array_sort cmp xs) = set xs"
  by (induction xs) (auto simp: array_sort_def set_sort_insert)

lemma length_sort_insert: "length (sort_insert cmp x ys) = Suc (length ys)"
  by (induction ys) auto

lemma length_array_sort: "length (array_sort cmp xs) = length xs"
  by (induction xs) (auto simp: array_sort_def length_sort_insert)

lemma distinct_sort_insert:
  "distinct (map f (sort_insert cmp x ys)) \<longleftrightarrow> f x \<notin> f ` set ys \<and> distinct (map f ys)"
  by (induction ys) (auto simp: set_sort_insert)

lemma distinct_array_sort:
  "distinct (map f (array_sort cmp xs)) \<longleftrightarrow> distinct (map f xs)"
  by (induction xs) (auto simp: array_sort_def distinct_sort_insert set_array_sort [unfolded array_sort_def])

lemma sorted_sort_insert:
  "sorted_wrt (\<lambda>a b. rank_le (rank a) (rank b)) ys \<Longrightarrow>
     sorted_wrt (\<lambda>a b. rank_le (rank a) (rank b)) (sort_insert by_rank x ys)"
proof (induction ys)
  case Nil
  then show ?case by simp
next
  case (Cons y ys)
  show ?case
  proof (cases "positive (by_rank x y)")
    case True
    then have "rank_le (rank y) (rank x)"
      using rank_le_total positive_by_rank by blast
    with True Cons show ?thesis
      by (auto simp: set_sort_insert)
  next
    case False
    then have "rank_le (rank x) (rank y)"
      by (simp add: positive_by_rank)
    with False Cons.prems show ?thesis
      by (auto intro: rank_le_trans)
  qed
qed

lemma sorted_array_sort:
  "sorted_wrt (\<lambda>a b. rank_le (rank a) (rank b)) (array_sort by_rank xs)"
  by (induction xs) (simp_all add: array_sort_def sorted_sort_insert)

lemma filter_sort_insert_other:
  "\<not> P x \<Longrightarrow> filter P (sort_insert cmp x ys) = filter P ys"
  by (induction ys) auto

lemma filter_sort_insert_same:
  "filter (\<lambda>e. rank e = rank x) (sort_insert by_rank x ys)
     = x # filter (\<lambda>e. rank e = rank x) ys"
proof (induction ys)
  case Nil
  then show ?case by simp
next
  case (Cons y ys)
  show ?case
  proof (cases "positive (by_rank x y)")
    case True
    then have "rank y \<noteq> rank x"
      using positive_by_rank rank_le_refl by metis
    with True Cons show ?thesis by simp
  next
    case False
    then show ?thesis by simp
  qed
qed

lemma array_sort_stable:
  "filter (\<lambda>e. rank e = r) (array_sort by_rank xs) = filter (\<lambda>e. rank e = r) xs"
proof (induction xs)
  case Nil
  then show ?case by (simp add: array_sort_def)
next
  case (Cons x xs)
  have step: "array_sort by_rank (x # xs) = sort_insert by_rank x (array_sort by_rank xs)"
    by (simp add: array_sort_def)
  show ?case
  proof (cases "rank x = r")
    case True
    then show ?thesis
      unfolding step using filter_sort_insert_same [of x "array_sort by_rank xs"] Cons.IH
      by simp
  next
    case False
    then show ?thesis
      unfolding step using Cons.IH by (simp add: filter_sort_insert_other)
  qed
qed

lemma array_sort_sorted_id:
  "sorted_wrt (\<lambda>a b. rank_le (rank a) (rank b)) xs \<Longrightarrow> array_sort by_rank xs = xs"
proof (induction xs)
  case Nil
  then show ?case by (simp add: array_sort_def)
next
  case (Cons x xs)
  then have "array_sort by_rank xs = xs" by simp
  then have "array_sort by_rank (x # xs) = sort_insert by_rank x xs"
    by (simp add: array_sort_def)
  moreover have "sort_insert by_rank x xs = x # xs"
    using Cons.prems by (cases xs) (auto simp: positive_by_rank)
  ultimately show ?case by simp
qed

lemma dedup_by_id_ids:
  "distinct (map entry_id (dedup_by_id seen xs)) \<and>
   entry_id ` set (dedup_by_id seen xs) \<inter> set seen = {}"
  by (induction seen xs rule: dedup_by_id.induct) auto

lemma dedup_by_id_set:
  "entry_id ` set (dedup_by_id seen xs) = entry_id ` set xs - set seen"
  by (induction seen xs rule: dedup_by_id.induct) auto

lemma dedup_by_id_subset: "set (dedup_by_id seen xs) \<subseteq> set xs"
  by (induction seen xs rule: dedup_by_id.induct) auto

lemma dedup_by_id_subseq: "subseq (dedup_by_id seen xs) xs"
  by (induction seen xs rule: dedup_by_id.induct) auto

lemma dedup_by_id_first:
  "e \<in> set (dedup_by_id seen xs) \<Longrightarrow> find (\<lambda>x. entry_id x = entry_id e) xs = Some e"
proof (induction seen xs rule: dedup_by_id.induct)
  case (1 seen)
  then show ?case by simp
next
  case (2 seen x xs)
  show ?case
  proof (cases "entry_id x \<in> set seen")
    case True
    with "2.prems" have mem: "e \<in> set (dedup_by_id seen xs)" by simp
    then have "entry_id e \<in> entry_id ` set xs - set seen"
      using dedup_by_id_set [of seen xs] by blast
    then have "entry_id e \<notin> set seen" by simp
    with True have "entry_id x \<noteq> entry_id e" by auto
    with True mem "2.IH"(1) show ?thesis by simp
  next
    case False
    show ?thesis
    proof (cases "e = x")
      case True
      then show ?thesis by simp
    next
      case ne: False
      with False "2.prems" have mem: "e \<in> set (dedup_by_id (entry_id x # seen) xs)" by simp
      then have "entry_id e \<in> entry_id ` set xs - set (entry_id x # seen)"
        using dedup_by_id_set [of "entry_id x # seen" xs] by blast
      then have "entry_id e \<noteq> entry_id x" by simp
      with False mem "2.IH"(2) show ?thesis by simp
    qed
  qed
qed

lemma dedup_by_id_distinct:
  "distinct (map entry_id xs) \<Longrightarrow> entry_id ` set xs \<inter> set seen = {} \<Longrightarrow>
     dedup_by_id seen xs = xs"
  by (induction seen xs rule: dedup_by_id.induct) auto

lemma accepted_id_NonObject: "accepted_id NonObject = None"
  by (simp add: accepted_id_def)

lemma collect_ids: "map entry_id (collect items w) = List.map_filter accepted_id items"
  by (induction items)
    (auto simp: List.map_filter_simps to_entry_def accepted_id_NonObject
      split: raw.splits option.splits)

lemma accepted_id_Some:
  "accepted_id x = Some i \<Longrightarrow> i \<noteq> [] \<and> take 2 i = ''tt'' \<and> (\<exists>it. x = Obj it)"
  by (auto simp: accepted_id_def starts_tt_def split: raw.splits option.splits if_splits)

lemma collect_find:
  "find (\<lambda>e. entry_id e = i) (collect items w) = Some e \<Longrightarrow>
     \<exists>it. find (\<lambda>x. accepted_id x = Some i) items = Some (Obj it) \<and> e = to_entry i it w"
proof (induction items)
  case Nil
  then show ?case by simp
next
  case (Cons x xs)
  show ?case
  proof (cases "accepted_id x")
    case None
    with Cons show ?thesis by (cases x) (auto simp: accepted_id_NonObject)
  next
    case (Some j)
    then obtain it where x: "x = Obj it" using accepted_id_Some by blast
    with Some have c: "collect (x # xs) w = to_entry j it w # collect xs w" by simp
    show ?thesis
    proof (cases "j = i")
      case True
      with Cons.prems c have "e = to_entry i it w" by (simp add: to_entry_def)
      with True Some x show ?thesis by simp
    next
      case False
      with Cons.prems c have "find (\<lambda>e. entry_id e = i) (collect xs w) = Some e"
        by (simp add: to_entry_def)
      with Cons.IH False Some show ?thesis by simp
    qed
  qed
qed

lemma collect_accepted:
  "e \<in> set (collect items w) \<Longrightarrow> entry_id e \<noteq> [] \<and> take 2 (entry_id e) = ''tt''"
proof (induction items)
  case Nil
  then show ?case by simp
next
  case (Cons x xs)
  then show ?case
    by (cases x) (auto simp: to_entry_def dest: accepted_id_Some split: option.splits)
qed

lemma normalize_unique_first:
  assumes "e \<in> set (normalize_unique items w)"
  shows "\<exists>it. find (\<lambda>x. accepted_id x = Some (entry_id e)) items = Some (Obj it) \<and>
              e = to_entry (entry_id e) it w"
  using assms dedup_by_id_first [of e "[]" "collect items w"] collect_find
  by (simp add: normalize_unique_def)

lemma normalize_unique_set:
  "set (normalize_unique items w) \<subseteq> set (collect items w)"
  by (simp add: normalize_unique_def dedup_by_id_subset)

lemma titles_normalize:
  "titles (normalize_items items w) = array_sort by_rank (normalize_unique items w)"
  by (simp add: normalize_items_def Let_def)

lemma titles_distinct: "distinct (map entry_id (titles (normalize_items items w)))"
  using dedup_by_id_ids [of "[]" "collect items w"]
  by (simp add: titles_normalize distinct_array_sort normalize_unique_def)

lemma titles_members:
  assumes "e \<in> set (titles (normalize_items items w))"
  shows "entry_id e \<noteq> [] \<and> take 2 (entry_id e) = ''tt'' \<and>
         (\<exists>it. find (\<lambda>x. accepted_id x = Some (entry_id e)) items = Some (Obj it) \<and>
               e = to_entry (entry_id e) it w)"
proof -
  from assms have u: "e \<in> set (normalize_unique items w)"
    by (simp add: titles_normalize set_array_sort)
  then have "e \<in> set (collect items w)"
    using normalize_unique_set by blast
  with u show ?thesis
    using normalize_unique_first collect_accepted by blast
qed

lemma titles_ids:
  "set (map entry_id (titles (normalize_items items w))) = set (List.map_filter accepted_id items)"
  using dedup_by_id_set [of "[]" "collect items w"] collect_ids [of items w]
  by (simp add: titles_normalize set_array_sort normalize_unique_def) (metis set_map)

lemma titles_sorted:
  "sorted_wrt (\<lambda>a b. rank_le (rank a) (rank b)) (titles (normalize_items items w))"
  by (simp add: titles_normalize sorted_array_sort)

lemma titles_stable:
  "filter (\<lambda>e. rank e = r) (titles (normalize_items items w))
     = filter (\<lambda>e. rank e = r) (normalize_unique items w)"
  by (simp add: titles_normalize array_sort_stable)

lemmas normalize_eval =
  normalize_items_def normalize_unique_def array_sort_def by_rank_def rank_or_inf_def
  accepted_id_def starts_tt_def to_entry_def str_or_def str_or_null_def num_or_null_def
  Let_def

lemma sample_normalized:
  "map (\<lambda>e. (entry_id e, title e, rank e)) (titles (normalize_items sample_items True)) =
     [(''tt1'', ''A'', Some 1), (''tt4'', ''D'', Some 1), (''tt2'', ''B'', Some 2),
      (''tt3'', [], None)]"
  by (simp add: sample_items_def normalize_eval)

lemma to_entry_raw_of_entry:
  "i \<noteq> [] \<Longrightarrow> take 2 i = ''tt'' \<Longrightarrow> e = to_entry i it w \<Longrightarrow>
     collect (raw_of_entry e # rest) w = e # collect rest w"
  by (simp add: raw_of_entry_def accepted_id_def starts_tt_def to_entry_def str_or_def
        str_or_null_def num_or_null_def split: option.splits)

lemma collect_raw_of_entry:
  "\<forall>e \<in> set es. \<exists>i it. i \<noteq> [] \<and> take 2 i = ''tt'' \<and> e = to_entry i it w \<Longrightarrow>
     collect (map raw_of_entry es) w = es"
proof (induction es)
  case Nil
  then show ?case by simp
next
  case (Cons e es)
  then obtain i it where "i \<noteq> []" "take 2 i = ''tt''" "e = to_entry i it w"
    by auto
  then have "collect (raw_of_entry e # map raw_of_entry es) w = e # collect (map raw_of_entry es) w"
    by (rule to_entry_raw_of_entry)
  with Cons show ?case by simp
qed

section \<open>Helper lemmas: the worker pool\<close>

lemma filter_update_count:
  "k < length xs \<Longrightarrow>
     length (filter P (xs[k := y])) + (if P (xs ! k) then 1 else 0)
       = length (filter P xs) + (if P y then 1 else 0)"
proof (induction xs arbitrary: k)
  case Nil
  then show ?case by simp
next
  case (Cons x xs)
  then show ?case by (cases k) auto
qed

lemma set_update_mem: "x \<in> set (xs[k := y]) \<Longrightarrow> x = y \<or> x \<in> set xs"
  using set_update_subset_insert [of xs k y] by auto

lemma spawn_eq:
  "spawn s =
     (if \<not> canceled s \<and> cursor s < length (queries s)
      then s\<lparr> workers := workers s @ [Fetching (cursor s)], cursor := cursor s + 1 \<rparr>
      else s\<lparr> workers := workers s @ [Exited] \<rparr>)"
  by (simp add: spawn_def loop_head_def)

lemma pool_inv_spawn: "pool_inv s \<Longrightarrow> pool_inv (spawn s)"
  by (auto simp: spawn_eq pool_inv_def is_fetching_def)

lemma pool_inv_loop_head:
  assumes "pool_inv s" and "k < length (workers s)" and "\<not> is_fetching (workers s ! k)"
  shows "pool_inv (loop_head k s)"
proof (cases "\<not> canceled s \<and> cursor s < length (queries s)")
  case True
  have "length (filter is_fetching ((workers s)[k := Fetching (cursor s)]))
      = Suc (length (filter is_fetching (workers s)))"
    using filter_update_count [OF assms(2), of is_fetching "Fetching (cursor s)"] assms(3)
    by (simp add: is_fetching_def)
  moreover have "Exited \<notin> set ((workers s)[k := Fetching (cursor s)])"
    using assms(1) True by (auto simp: pool_inv_def dest: set_update_mem)
  ultimately show ?thesis
    using assms(1) True by (simp add: loop_head_def pool_inv_def)
next
  case False
  have "length (filter is_fetching ((workers s)[k := Exited]))
      = length (filter is_fetching (workers s))"
    using filter_update_count [OF assms(2), of is_fetching Exited] assms(3)
    by (simp add: is_fetching_def)
  with assms(1) False show ?thesis
    by (auto simp: loop_head_def pool_inv_def)
qed

lemma pool_inv_after_fetch:
  assumes "pool_inv s" and "k < length (workers s)" and "is_fetching (workers s ! k)"
  shows "pool_inv (after_fetch k data s)"
proof -
  have "length (filter is_fetching ((workers s)[k := Sleeping])) + 1
      = length (filter is_fetching (workers s))"
    using filter_update_count [OF assms(2), of is_fetching Sleeping] assms(3)
    by (simp add: is_fetching_def)
  moreover have "Exited \<in> set ((workers s)[k := Sleeping]) \<Longrightarrow> Exited \<in> set (workers s)"
    by (auto dest: set_update_mem)
  ultimately show ?thesis
    using assms(1) by (auto simp: after_fetch_def pool_inv_def Let_def progress_at_def)
qed

lemma pool_inv_fire: "pool_inv s \<Longrightarrow> pool_inv (fire ev s)"
proof (cases ev)
  case (FetchSettled k data)
  assume "pool_inv s"
  with FetchSettled show ?thesis
    by (simp add: fire_def pool_inv_after_fetch)
next
  case (SleepElapsed k)
  assume "pool_inv s"
  with SleepElapsed show ?thesis
    by (auto simp: fire_def is_fetching_def intro: pool_inv_loop_head)
next
  case GlobalTimeout
  assume "pool_inv s"
  with GlobalTimeout show ?thesis
    by (simp add: fire_def pool_inv_def)
qed

lemma pool_inv_exec: "pool_inv s \<Longrightarrow> pool_inv (exec evs s)"
  unfolding exec_def by (induction evs arbitrary: s) (simp_all add: pool_inv_fire)

lemma pool_inv_start_workers: "pool_inv s \<Longrightarrow> pool_inv (start_workers n s)"
  by (induction n arbitrary: s) (simp_all add: pool_inv_spawn)

lemma pool_inv_start: "pool_inv (loadAll_start qs cb)"
  unfolding loadAll_start_def
  by (rule pool_inv_start_workers) (simp add: pool_inv_def)

lemma fire_fixed:
  "queries (fire ev s) = queries s \<and> has_callback (fire ev s) = has_callback s \<and>
   length (workers (fire ev s)) = length (workers s)"
  by (cases ev) (auto simp: fire_def after_fetch_def loop_head_def Let_def)

lemma exec_fixed:
  "queries (exec evs s) = queries s \<and> has_callback (exec evs s) = has_callback s \<and>
   length (workers (exec evs s)) = length (workers s)"
  unfolding exec_def by (induction evs arbitrary: s) (simp_all add: fire_fixed)

lemma start_workers_fetching:
  "\<not> canceled s \<Longrightarrow> cursor s + k \<le> length (queries s) \<Longrightarrow>
     start_workers k s =
       s\<lparr> workers := workers s @ map Fetching [cursor s..<cursor s + k],
          cursor := cursor s + k \<rparr>"
proof (induction k arbitrary: s)
  case 0
  then show ?case by simp
next
  case (Suc k)
  let ?s = "s\<lparr> workers := workers s @ [Fetching (cursor s)], cursor := cursor s + 1 \<rparr>"
  from Suc.prems have sp: "spawn s = ?s"
    by (simp add: spawn_eq)
  from Suc.prems have "start_workers k ?s =
      ?s\<lparr> workers := workers ?s @ map Fetching [cursor ?s..<cursor ?s + k],
           cursor := cursor ?s + k \<rparr>"
    by (intro Suc.IH) simp_all
  then show ?case
    using sp by (simp add: upt_conv_Cons)
qed

lemma loadAll_start_eq:
  "loadAll_start qs cb =
     \<lparr> queries = qs, has_callback = cb,
       cursor = min (concurrency CONFIG) (length qs), done_count = 0, canceled = False,
       results = [], workers = map Fetching [0..<min (concurrency CONFIG) (length qs)],
       emitted = [] \<rparr>"
  unfolding loadAll_start_def by (subst start_workers_fetching) simp_all

lemma bit_length_bounds: "0 < n \<Longrightarrow> 2 ^ (bit_length n - 1) \<le> n \<and> n < 2 ^ bit_length n"
proof (induction n rule: bit_length.induct)
  case (1 n)
  show ?case
  proof (cases "n div 2 = 0")
    case True
    with "1.prems" have "n = 1" by (simp add: div_eq_0_iff) 
    then show ?thesis by (simp add: bit_length.simps)
  next
    case False
    with "1.IH" "1.prems" have ih: "2 ^ (bit_length (n div 2) - 1) \<le> n div 2"
      "n div 2 < 2 ^ bit_length (n div 2)" by auto
    from False have pos: "0 < bit_length (n div 2)"
      by (simp add: bit_length.simps)
    have eq: "bit_length n = Suc (bit_length (n div 2))"
      using "1.prems" by (subst bit_length.simps) simp
    from pos obtain k where k: "bit_length (n div 2) = Suc k"
      by (cases "bit_length (n div 2)") auto
    from ih show ?thesis unfolding eq k by auto
  qed
qed


lemma bit_length_pos: "0 < n \<Longrightarrow> 0 < bit_length n"
  by (subst bit_length.simps) simp

lemma binade_bounds:
  assumes "0 < x"
  shows "2 powi (binade x) \<le> x \<and> x < 2 powi (binade x + 1)"
proof (cases "1 \<le> x")
  case True
  define n where "n = nat \<lfloor>x\<rfloor>"
  from True have f: "1 \<le> \<lfloor>x\<rfloor>" by simp
  have "of_int \<lfloor>x\<rfloor> \<le> x" "x < of_int \<lfloor>x\<rfloor> + 1"
    using floor_correct [of x] by simp_all
  with f have n: "0 < n" "of_nat n \<le> x" "x < of_nat n + 1"
    unfolding n_def by (simp_all add: of_nat_nat)
  from bit_length_bounds [OF n(1)] have b: "2 ^ (bit_length n - 1) \<le> n" "n < 2 ^ bit_length n"
    by simp_all
  from bit_length_pos [OF n(1)] obtain k where k: "bit_length n = Suc k"
    by (cases "bit_length n") auto
  have e: "binade x = int k"
    using True by (simp add: binade_def n_def [symmetric] k)
  from b(1) have "(of_nat (2 ^ k) :: rat) \<le> of_nat n"
    unfolding k by (simp only: of_nat_le_iff diff_Suc_1)
  then have "(2::rat) ^ k \<le> of_nat n" by simp
  then have lo: "(2::rat) ^ k \<le> x" using n(2) by (rule order_trans)
  from b(2) have "n + 1 \<le> 2 ^ Suc k" unfolding k by simp
  then have "(of_nat (n + 1) :: rat) \<le> of_nat (2 ^ Suc k)"
    by (simp only: of_nat_le_iff)
  then have "(of_nat n :: rat) + 1 \<le> 2 ^ Suc k" by simp
  with n(3) have hi: "x < 2 ^ Suc k" by (rule less_le_trans)
  have "2 powi (int k + 1) = (2::rat) ^ Suc k"
    by (metis of_nat_Suc power_int_of_nat add.commute of_nat_1 of_nat_add)
  with lo hi show ?thesis unfolding e by simp
next
  case False
  define c where "c = \<lceil>1 / x\<rceil>"
  define m where "m = nat (c - 1)"
  from False assms have big: "1 < 1 / x" by (simp add: field_simps)
  then have c2: "2 \<le> c" unfolding c_def by (simp add: le_ceiling_iff)
  have cu: "1 / x \<le> of_int c" unfolding c_def by (rule le_of_int_ceiling)
  have cl: "of_int c - 1 < 1 / x" unfolding c_def using ceiling_correct [of "1 / x"] by simp
  from c2 have m: "0 < m" "int m = c - 1" unfolding m_def by simp_all
  from bit_length_bounds [OF m(1)] have b: "2 ^ (bit_length m - 1) \<le> m" "m < 2 ^ bit_length m"
    by simp_all
  from bit_length_pos [OF m(1)] obtain k where k: "bit_length m = Suc k"
    by (cases "bit_length m") auto
  have e: "binade x = - int (Suc k)"
    using False by (simp add: binade_def c_def [symmetric] m_def [symmetric] k)
  have mc: "(of_nat m :: rat) = of_int c - 1"
    using m(2) by (metis of_int_1 of_int_diff of_int_of_nat_eq)
  from b(2) have "m + 1 \<le> 2 ^ Suc k" unfolding k by simp
  then have "(of_nat (m + 1) :: rat) \<le> of_nat (2 ^ Suc k)"
    by (simp only: of_nat_le_iff)
  then have "(of_nat m :: rat) + 1 \<le> 2 ^ Suc k" by simp
  then have "of_int c \<le> (2::rat) ^ Suc k" unfolding mc by simp
  with cu have up: "1 / x \<le> 2 ^ Suc k" by (rule order_trans)
  from b(1) have "(of_nat (2 ^ k) :: rat) \<le> of_nat m"
    unfolding k by (simp only: of_nat_le_iff diff_Suc_1)
  then have "(2::rat) ^ k \<le> of_nat m" by simp
  then have "(2::rat) ^ k \<le> of_int c - 1" unfolding mc .
  then have dn: "(2::rat) ^ k < 1 / x" using cl by (rule le_less_trans)
  have p1: "2 powi (- int (Suc k)) = 1 / (2::rat) ^ Suc k"
    by (simp only: power_int_minus power_int_of_nat inverse_eq_divide)
  have "- int (Suc k) + 1 = - int k" by simp
  then have p2: "2 powi (- int (Suc k) + 1) = 1 / (2::rat) ^ k"
    by (simp only: power_int_minus power_int_of_nat inverse_eq_divide)
  from up assms have lo: "1 / (2::rat) ^ Suc k \<le> x"
    by (simp add: field_simps)
  from dn assms have hi: "x < 1 / (2::rat) ^ k"
    by (simp add: field_simps)
  from lo hi show ?thesis unfolding e p1 p2 by simp
qed

lemma binade_mono:
  assumes "0 < x" and "x \<le> y"
  shows "binade x \<le> binade y"
proof (rule ccontr)
  assume "\<not> binade x \<le> binade y"
  then have "binade y + 1 \<le> binade x" by simp
  then have "(2::rat) powi (binade y + 1) \<le> 2 powi (binade x)"
    by (intro power_int_increasing) simp_all
  also have "\<dots> \<le> x" using binade_bounds [OF assms(1)] by simp
  also have "\<dots> \<le> y" by (rule assms(2))
  also have "\<dots> < 2 powi (binade y + 1)"
    using binade_bounds [of y] assms by simp
  finally show False by simp
qed

lemma round_half_even_cases:
  "round_half_even y = \<lfloor>y\<rfloor> \<or> round_half_even y = \<lfloor>y\<rfloor> + 1"
  by (simp add: round_half_even_def Let_def)

lemma round_half_even_of_int: "round_half_even (of_int k) = k"
  by (simp add: round_half_even_def)

lemma round_half_even_mono:
  assumes "y \<le> z"
  shows "round_half_even y \<le> round_half_even z"
proof (cases "\<lfloor>y\<rfloor> = \<lfloor>z\<rfloor>")
  case True
  from assms have "y - of_int \<lfloor>z\<rfloor> \<le> z - of_int \<lfloor>z\<rfloor>" by simp
  then show ?thesis
    unfolding round_half_even_def Let_def True by auto
next
  case False
  with assms have "\<lfloor>y\<rfloor> < \<lfloor>z\<rfloor>"
    using floor_mono [of y z] by simp
  then have "\<lfloor>y\<rfloor> + 1 \<le> \<lfloor>z\<rfloor>" by simp
  moreover have "round_half_even y \<le> \<lfloor>y\<rfloor> + 1"
    using round_half_even_cases [of y] by auto
  moreover have "\<lfloor>z\<rfloor> \<le> round_half_even z"
    using round_half_even_cases [of z] by auto
  ultimately show ?thesis by simp
qed

lemma to_double_pos:
  "0 < x \<Longrightarrow> to_double x = of_int (round_half_even (x / 2 powi (binade x - 52))) * 2 powi (binade x - 52)"
  by (simp add: to_double_def Let_def)

lemma to_double_bounds:
  assumes "0 < x"
  shows "2 powi (binade x) \<le> to_double x \<and> to_double x \<le> 2 powi (binade x + 1)"
proof -
  let ?g = "(2::rat) powi (binade x - 52)"
  have g: "0 < ?g" by simp
  have lo52: "2 powi (binade x) = of_int (2 ^ 52) * ?g"
    using power_int_add [of "2::rat" 52 "binade x - 52"] by simp
  have hi52: "2 powi (binade x + 1) = of_int (2 ^ 53) * ?g"
    using power_int_add [of "2::rat" 53 "binade x - 52"] by (simp add: add.commute)
  from binade_bounds [OF assms] have "of_int (2 ^ 52) * ?g \<le> x" "x \<le> of_int (2 ^ 53) * ?g"
    unfolding lo52 hi52 by simp_all
  with g have "of_int (2 ^ 52) \<le> x / ?g" "x / ?g \<le> of_int (2 ^ 53)"
    by (simp_all add: pos_le_divide_eq pos_divide_le_eq)
  then have "2 ^ 52 \<le> round_half_even (x / ?g)" "round_half_even (x / ?g) \<le> 2 ^ 53"
    using round_half_even_mono [of "of_int (2 ^ 52)" "x / ?g"]
      round_half_even_mono [of "x / ?g" "of_int (2 ^ 53)"]
    by (simp_all only: round_half_even_of_int)
  then have "(of_int (2 ^ 52) :: rat) \<le> of_int (round_half_even (x / ?g))"
      "(of_int (round_half_even (x / ?g)) :: rat) \<le> of_int (2 ^ 53)"
    by (simp_all only: of_int_le_iff)
  with g have "of_int (2 ^ 52) * ?g \<le> of_int (round_half_even (x / ?g)) * ?g"
      "of_int (round_half_even (x / ?g)) * ?g \<le> of_int (2 ^ 53) * ?g"
    by (simp_all only: mult_le_cancel_right_pos)
  then show ?thesis
    unfolding lo52 hi52 to_double_pos [OF assms] by simp
qed

lemma to_double_mono:
  assumes "0 \<le> x" and "x \<le> y"
  shows "to_double x \<le> to_double y"
proof (cases "x = 0")
  case True
  show ?thesis
  proof (cases "y = 0")
    case True
    with \<open>x = 0\<close> show ?thesis by simp
  next
    case False
    with assms True have "0 < y" by simp
    from to_double_bounds [OF this] have "0 \<le> to_double y"
      by (meson less_eq_rat_def order_trans zero_less_numeral zero_less_power_int)
    with True show ?thesis by (simp add: to_double_def)
  qed
next
  case False
  with assms have x: "0 < x" and y: "0 < y" by simp_all
  have e: "binade x \<le> binade y" using x assms(2) by (rule binade_mono)
  show ?thesis
  proof (cases "binade x = binade y")
    case True
    let ?g = "(2::rat) powi (binade y - 52)"
    have g: "0 < ?g" by simp
    with assms(2) have "x / ?g \<le> y / ?g" by (simp add: divide_right_mono)
    then have "round_half_even (x / ?g) \<le> round_half_even (y / ?g)"
      by (rule round_half_even_mono)
    then have "(of_int (round_half_even (x / ?g)) :: rat) \<le> of_int (round_half_even (y / ?g))"
      by (simp only: of_int_le_iff)
    with g show ?thesis
      unfolding to_double_pos [OF x] to_double_pos [OF y] True
      by (simp only: mult_le_cancel_right_pos)
  next
    case False
    with e have "binade x + 1 \<le> binade y" by simp
    then have "(2::rat) powi (binade x + 1) \<le> 2 powi (binade y)"
      by (intro power_int_increasing) simp_all
    with to_double_bounds [OF x] to_double_bounds [OF y] show ?thesis by simp
  qed
qed

lemma to_double_nonneg: "0 \<le> x \<Longrightarrow> 0 \<le> to_double x"
  using to_double_mono [of 0 x] by (simp add: to_double_def)

lemma to_double_1: "to_double 1 = 1"
  by code_simp

lemma to_double_100: "to_double 100 = 100"
  by code_simp

lemma pct_of_mono: "d \<le> d' \<Longrightarrow> pct_of d n \<le> pct_of d' n"
proof -
  assume "d \<le> d'"
  then have "(of_nat d :: rat) / of_nat n \<le> of_nat d' / of_nat n"
    by (simp add: divide_right_mono)
  then have "to_double (of_nat d / of_nat n) \<le> to_double (of_nat d' / of_nat n)"
    by (intro to_double_mono) simp_all
  moreover have "0 \<le> to_double (of_nat d / of_nat n)"
    by (intro to_double_nonneg) simp
  ultimately have "to_double (to_double (of_nat d / of_nat n) * 100)
      \<le> to_double (to_double (of_nat d' / of_nat n) * 100)"
    by (intro to_double_mono) simp_all
  then show ?thesis
    unfolding pct_of_def by (intro nat_mono floor_mono) simp
qed

lemma pct_of_full: "0 < n \<Longrightarrow> pct_of n n = 100"
proof -
  assume "0 < n"
  have "\<lfloor>(201::rat) / 2\<rfloor> = 100"
    by (rule floor_unique) simp_all
  with \<open>0 < n\<close> show ?thesis
    by (simp add: pct_of_def to_double_1 to_double_100)
qed

lemma round_half_even_err: "\<bar>of_int (round_half_even y) - y\<bar> \<le> 1 / 2"
proof -
  have fl: "of_int \<lfloor>y\<rfloor> \<le> y" "y < of_int \<lfloor>y\<rfloor> + 1"
    using floor_correct [of y] by simp_all
  consider (below) "y - of_int \<lfloor>y\<rfloor> < 1 / 2" | (above) "1 / 2 < y - of_int \<lfloor>y\<rfloor>"
    | (half) "y - of_int \<lfloor>y\<rfloor> = 1 / 2"
    by linarith
  then show ?thesis
  proof cases
    case below
    then have "round_half_even y = \<lfloor>y\<rfloor>"
      by (simp add: round_half_even_def Let_def)
    with fl below show ?thesis by simp
  next
    case above
    then have "round_half_even y = \<lfloor>y\<rfloor> + 1"
      by (simp add: round_half_even_def Let_def)
    with fl above show ?thesis by simp
  next
    case half
    from round_half_even_cases [of y] show ?thesis
    proof
      assume "round_half_even y = \<lfloor>y\<rfloor>"
      with half show ?thesis by simp
    next
      assume "round_half_even y = \<lfloor>y\<rfloor> + 1"
      with half show ?thesis by simp
    qed
  qed
qed

lemma to_double_err:
  assumes "0 < x"
  shows "\<bar>to_double x - x\<bar> \<le> x / 2 ^ 53"
proof -
  let ?g = "(2::rat) powi (binade x - 52)"
  have g: "0 < ?g" by simp
  have "to_double x - x = (of_int (round_half_even (x / ?g)) - x / ?g) * ?g"
    using g by (simp add: to_double_pos [OF assms] field_simps)
  then have "\<bar>to_double x - x\<bar> = \<bar>of_int (round_half_even (x / ?g)) - x / ?g\<bar> * ?g"
    using g by (simp add: abs_mult)
  also have "\<dots> \<le> 1 / 2 * ?g"
    using g round_half_even_err [of "x / ?g"] by (intro mult_right_mono) simp_all
  finally have a: "\<bar>to_double x - x\<bar> \<le> ?g / 2" by simp
  have "2 powi (binade x) = of_int (2 ^ 52) * ?g"
    using power_int_add [of "2::rat" 52 "binade x - 52"] by simp
  with binade_bounds [OF assms] have "2 ^ 52 * ?g \<le> x" by simp
  then have "?g \<le> x / 2 ^ 52" by (simp add: field_simps)
  then have "?g / 2 \<le> x / 2 ^ 53" by simp
  with a show ?thesis by (rule order_trans)
qed

lemma pct_of_eqI:
  assumes "0 < d" and "0 < n"
    and lo: "of_nat k - 1 / 2 \<le> (100 * of_nat d / of_nat n) * (1 - 1 / 2 ^ 52 :: rat)"
    and hi: "(100 * of_nat d / of_nat n) * (1 + 1 / 2 ^ 51 :: rat) < of_nat k + 1 / 2"
  shows "pct_of d n = k"
proof -
  define v :: rat where "v = of_nat d / of_nat n"
  define q where "q = to_double v"
  define r where "r = to_double (q * 100)"
  have v: "0 < v" using assms(1,2) by (simp add: v_def)
  from to_double_err [OF v] have "\<bar>q - v\<bar> \<le> v / 2 ^ 53"
    unfolding q_def .
  then have qv: "v - v / 2 ^ 53 \<le> q" "q \<le> v + v / 2 ^ 53"
    by linarith+
  have "0 < v - v / 2 ^ 53" using v by (simp add: field_simps)
  with qv(1) have q: "0 < q" by simp
  then have "0 < q * 100" by simp
  from to_double_err [OF this] have "\<bar>r - q * 100\<bar> \<le> q * 100 / 2 ^ 53"
    unfolding r_def .
  then have rq: "q * 100 - q * 100 / 2 ^ 53 \<le> r" "r \<le> q * 100 + q * 100 / 2 ^ 53"
    by linarith+
  have "(v - v / 2 ^ 53) * (100 - 100 / 2 ^ 53) \<le> q * (100 - 100 / 2 ^ 53)"
    using qv(1) by (intro mult_right_mono) simp_all
  also have "\<dots> = q * 100 - q * 100 / 2 ^ 53" by (simp add: algebra_simps)
  also have "\<dots> \<le> r" by (rule rq(1))
  finally have r1: "(v - v / 2 ^ 53) * (100 - 100 / 2 ^ 53) \<le> r" .
  have "100 * v * (1 - 1 / 2 ^ 52) \<le> (v - v / 2 ^ 53) * (100 - 100 / 2 ^ 53)"
  proof -
    have "(v - v / 2 ^ 53) * (100 - 100 / 2 ^ 53) - 100 * v * (1 - 1 / 2 ^ 52)
        = v * (100 / (2 ^ 53 * 2 ^ 53))"
      by (simp add: algebra_simps)
    moreover have "0 \<le> v * (100 / (2 ^ 53 * 2 ^ 53))" using v by simp
    ultimately show ?thesis by simp
  qed
  then have lo': "100 * v * (1 - 1 / 2 ^ 52) \<le> r" using r1 by (rule order_trans)
  have "r \<le> q * 100 + q * 100 / 2 ^ 53" by (rule rq(2))
  also have "\<dots> = q * (100 + 100 / 2 ^ 53)" by (simp add: algebra_simps)
  also have "\<dots> \<le> (v + v / 2 ^ 53) * (100 + 100 / 2 ^ 53)"
    using qv(2) by (intro mult_right_mono) simp_all
  finally have r2: "r \<le> (v + v / 2 ^ 53) * (100 + 100 / 2 ^ 53)" .
  have "(v + v / 2 ^ 53) * (100 + 100 / 2 ^ 53) \<le> 100 * v * (1 + 1 / 2 ^ 51)"
  proof -
    have "100 * v * (1 + 1 / 2 ^ 51) - (v + v / 2 ^ 53) * (100 + 100 / 2 ^ 53)
        = v * (200 / 2 ^ 53 - 100 / (2 ^ 53 * 2 ^ 53))"
      by (simp add: algebra_simps)
    moreover have "0 \<le> v * (200 / 2 ^ 53 - 100 / (2 ^ 53 * 2 ^ 53))"
      using v by (intro mult_nonneg_nonneg) simp_all
    ultimately show ?thesis by simp
  qed
  with r2 have hi': "r \<le> 100 * v * (1 + 1 / 2 ^ 51)" by (rule order_trans)
  from lo lo' have a: "of_nat k \<le> r + 1 / 2"
    unfolding v_def by simp
  from hi hi' have b: "r + 1 / 2 < of_nat k + 1"
    unfolding v_def by simp
  have "\<lfloor>r + 1 / 2\<rfloor> = int k"
    by (rule floor_unique) (use a b in simp_all)
  then show ?thesis
    unfolding pct_of_def r_def q_def v_def by simp
qed

lemma pct_of_23_of_40: "pct_of 23 40 = 57"
  by code_simp

lemma sorted_map_upt: "(\<And>i j. i \<le> j \<Longrightarrow> f i \<le> f j) \<Longrightarrow> sorted (map f [a..<b])"
  by (induction b) (auto simp: sorted_append)

lemma pool_wake: "pool (wake remote k t) = pool t"
  by (simp add: wake_def Let_def split: worker.splits)

lemma pool_clear_global: "pool (clear_global t) = pool t"
  by (simp add: clear_global_def)

lemma pool_wake_all: "pool (wake_all remote ks t) = pool t"
  by (induction ks arbitrary: t) (simp_all add: pool_wake)

lemma tick_fires: "tick remote t = Some t' \<Longrightarrow> \<exists>ev. pool t' = fire ev (pool t)"
  by (auto simp: tick_def Let_def pool_wake pool_clear_global
      split: option.splits event.splits)

lemma run_execs:
  "run fuel remote t = Some t' \<Longrightarrow> returned (pool t') \<and> (\<exists>evs. pool t' = exec evs (pool t))"
proof (induction fuel arbitrary: t)
  case 0
  then have "t' = t" "returned (pool t)"
    by (auto split: if_splits)
  moreover have "pool t = exec [] (pool t)"
    by (simp add: exec_def)
  ultimately show ?case by blast
next
  case (Suc fuel)
  show ?case
  proof (cases "returned (pool t)")
    case True
    with Suc.prems have "t' = t" by simp
    moreover have "pool t = exec [] (pool t)"
      by (simp add: exec_def)
    ultimately show ?thesis using True by blast
  next
    case False
    with Suc.prems obtain t1 where t1: "tick remote t = Some t1" "run fuel remote t1 = Some t'"
      by (auto split: option.splits)
    from t1(1) obtain ev where ev: "pool t1 = fire ev (pool t)"
      using tick_fires by blast
    from Suc.IH [OF t1(2)] obtain evs where "returned (pool t')" "pool t' = exec evs (pool t1)"
      by blast
    with ev have "returned (pool t')" "pool t' = exec (ev # evs) (pool t)"
      by (simp_all add: exec_def)
    then show ?thesis by blast
  qed
qed

lemma loadAll_timed_execs:
  assumes "loadAll_timed remote qs cb = Some t"
  shows "returned (pool t) \<and> (\<exists>evs. pool t = exec evs (loadAll_start qs cb))"
  using run_execs [OF assms [unfolded loadAll_timed_def Let_def]]
  by (simp add: pool_clear_global pool_wake_all)

lemma returned_no_fetch: "returned s \<Longrightarrow> filter is_fetching (workers s) = []"
  by (auto simp: returned_def list_all_iff is_fetching_def filter_empty_conv)

lemma fire_cursor: "cursor s \<le> cursor (fire ev s)"
  by (cases ev) (auto simp: fire_def after_fetch_def loop_head_def Let_def)

lemma exec_cursor: "cursor s \<le> cursor (exec evs s)"
  unfolding exec_def
proof (induction evs arbitrary: s)
  case Nil
  then show ?case by simp
next
  case (Cons ev evs)
  have "cursor s \<le> cursor (fire ev s)" by (rule fire_cursor)
  also have "\<dots> \<le> cursor (fold fire evs (fire ev s))" by (rule Cons.IH)
  finally show ?case by simp
qed

lemma emitted_sorted:
  assumes "pool_inv s"
  shows "sorted (map ev_pct (emitted s))"
proof -
  have "sorted (map (\<lambda>d. pct_of d (length (queries s))) [1..<Suc (done_count s)])"
    by (rule sorted_map_upt) (rule pct_of_mono)
  with assms show ?thesis
    by (simp add: pool_inv_def progress_at_def comp_def)
qed

lemma returned_last_pct:
  assumes "pool_inv s" and "returned s" and "0 < cursor s" and "has_callback s"
    and "workers s \<noteq> []"
  shows "emitted s \<noteq> [] \<and>
         ev_pct (last (emitted s)) = pct_of (cursor s) (length (queries s)) \<and>
         (\<not> canceled s \<longrightarrow> ev_pct (last (emitted s)) = 100)"
proof -
  from assms(1,2) have d: "done_count s = cursor s"
    by (simp add: pool_inv_def returned_no_fetch)
  from assms(1,4) d have e: "emitted s = map (progress_at (length (queries s))) [1..<Suc (cursor s)]"
    by (simp add: pool_inv_def)
  from assms(3) have ne: "[1..<Suc (cursor s)] \<noteq> []" by simp
  from assms(3) have l: "last [1..<Suc (cursor s)] = cursor s" by simp
  have last: "ev_pct (last (emitted s)) = pct_of (cursor s) (length (queries s))"
    unfolding e using ne l by (simp add: last_map progress_at_def)
  from assms(1,3) have n: "0 < length (queries s)"
    by (cases "queries s") (auto simp: pool_inv_def)
  from assms(2,5) have "Exited \<in> set (workers s)"
    by (cases "workers s") (auto simp: returned_def)
  with assms(1) have "canceled s \<or> cursor s = length (queries s)"
    by (simp add: pool_inv_def)
  with last n have "\<not> canceled s \<longrightarrow> ev_pct (last (emitted s)) = 100"
    by (auto simp: pct_of_full)
  with e ne last show ?thesis by simp
qed

lemma exec_start_facts:
  assumes "qs \<noteq> []"
  shows "pool_inv (exec evs (loadAll_start qs True)) \<and>
         0 < cursor (exec evs (loadAll_start qs True)) \<and>
         has_callback (exec evs (loadAll_start qs True)) \<and>
         workers (exec evs (loadAll_start qs True)) \<noteq> [] \<and>
         queries (exec evs (loadAll_start qs True)) = qs"
proof -
  let ?s = "exec evs (loadAll_start qs True)"
  have "0 < cursor (loadAll_start qs True)"
    using assms by (simp add: loadAll_start_eq CONFIG_def)
  then have c: "0 < cursor ?s"
    using exec_cursor [of "loadAll_start qs True" evs] by simp
  have "0 < length (workers (loadAll_start qs True))"
    using assms by (simp add: loadAll_start_eq CONFIG_def)
  then have w: "workers ?s \<noteq> []"
    using exec_fixed [of evs "loadAll_start qs True"] by auto
  have h: "has_callback ?s" "queries ?s = qs"
    using exec_fixed [of evs "loadAll_start qs True"] by (simp_all add: loadAll_start_eq)
  have "pool_inv ?s"
    by (rule pool_inv_exec) (rule pool_inv_start)
  with c w h show ?thesis by simp
qed

section \<open>Helper lemmas: runs on the clock\<close>

lemma run_numeral:
  "run (numeral k) remote t =
     (if returned (pool t) then Some t
      else case tick remote t of None \<Rightarrow> None | Some t' \<Rightarrow> run (pred_numeral k) remote t')"
  by (simp add: numeral_eq_Suc)

lemmas pool_eval =
  loadAll_timed_def loadAll_start_eq after_fetch_def loop_head_def fire_def returned_def
  is_fetching_def wake_def tick_def clear_global_def run_numeral suggested_def
  CONFIG_def Let_def upt_conv_Cons

lemma discovery_queries:
  "expandQueries [] v =
     [''the'', ''new'', ''best'', ''top'', ''movie'', ''series'', ''2024'', ''2025'',
      ''a'', ''b'', ''c'', ''d'', ''e'', ''f'', ''g'', ''h'', ''i'', ''j'', ''k'', ''l'', ''m'',
      ''n'', ''o'', ''p'', ''q'', ''r'', ''s'', ''t'', ''u'', ''v'', ''w'', ''x'', ''y'', ''z'']"
  by (simp add: expandQueries_def expandQueries_q_def push_each_map letters_def
        spread_set_distinct CONFIG_def)

lemma discovery_length: "length (expandQueries [] v) = 34"
  by (simp add: discovery_queries)

lemma discovery_timeouts_run:
  assumes "\<And>q. fetch_result (remote q) = (perRequestTimeoutMs CONFIG, None)"
  shows "loadAll_timed remote (expandQueries [] v) True =
           Some \<lparr> pool = \<lparr> queries = expandQueries [] v, has_callback = True, cursor = 30,
                            done_count = 30, canceled = True, results = [],
                            workers = [Exited, Exited, Exited, Exited, Exited, Exited],
                            emitted = map (progress_at 34) [1..<31] \<rparr>,
                  now = 12650, agenda = [] \<rparr>"
  using assms by (simp add: pool_eval progress_at_def discovery_length)

lemma single_query_run:
  "loadAll_timed never_answers [''a''] True =
     Some \<lparr> pool = \<lparr> queries = [''a''], has_callback = True, cursor = 1, done_count = 1,
                      canceled = False, results = [], workers = [Exited],
                      emitted = [progress_at 1 1] \<rparr>,
            now = 2530, agenda = [] \<rparr>"
  by (simp add: pool_eval progress_at_def fetch_result_def never_answers_def)

section \<open>Helper lemmas: the loader and the session\<close>

lemma deliver_finished: "finished f \<Longrightarrow> deliver f ev = f"
  by (cases ev) (auto simp: deliver_def finish_def split: option.splits jsonp_arg.splits)

lemma foldl_deliver_finished: "finished f \<Longrightarrow> foldl deliver f evs = f"
  by (induction evs) (simp_all add: deliver_finished)

lemma deliver_first:
  "well_formed q \<Longrightarrow>
     finished (deliver (loadSuggest unicode q timeoutMs) ev) \<and>
     window_cb (deliver (loadSuggest unicode q timeoutMs) ev) = None \<and>
     \<not> timer_armed (deliver (loadSuggest unicode q timeoutMs) ev) \<and>
     \<not> script_attached (deliver (loadSuggest unicode q timeoutMs) ev) \<and>
     settled (deliver (loadSuggest unicode q timeoutMs) ev) = Resolved (outcome ev)"
  by (cases ev)
    (auto simp: deliver_def finish_def cleanup_def loadSuggest_well_formed outcome_def)

lemma settled_first:
  "well_formed q \<Longrightarrow>
     settled (foldl deliver (loadSuggest unicode q timeoutMs) (e # es)) = Resolved (outcome e)"
  by (simp add: deliver_first foldl_deliver_finished)

lemma loadSuggest_resolves:
  assumes "well_formed q"
  shows "settled (loadSuggest unicode q timeoutMs) = Pending \<and>
         timer_armed (loadSuggest unicode q timeoutMs) \<and>
         settled (foldl deliver (loadSuggest unicode q timeoutMs) (ev # evs))
           = Resolved (outcome ev) \<and>
         outcome TimerFired = None \<and>
         outcome ScriptError = None \<and>
         outcome (CallbackInvoked Falsy) = None \<and>
         outcome (CallbackInvoked (Payload d)) = Some d"
  using assms settled_first [OF assms, of unicode timeoutMs ev evs]
  by (simp add: loadSuggest_well_formed outcome_def arg_or_null_def)

lemma deliver_rejected:
  "\<not> well_formed q \<Longrightarrow>
     deliver (loadSuggest unicode q timeoutMs) ev = loadSuggest unicode q timeoutMs"
  by (cases ev) (simp_all add: deliver_def loadSuggest_lone_surrogate)

lemma foldl_deliver_rejected:
  "\<not> well_formed q \<Longrightarrow>
     foldl deliver (loadSuggest unicode q timeoutMs) evs = loadSuggest unicode q timeoutMs"
  by (induction evs) (simp_all add: deliver_rejected)

lemma fetch_result_settles:
  "settled (foldl deliver (loadSuggest unicode (units q) (perRequestTimeoutMs CONFIG))
      (arrivals r (perRequestTimeoutMs CONFIG))) = Resolved (snd (fetch_result r))"
  by (cases r)
    (simp_all add: arrivals_def fetch_result_def settled_first well_formed_units outcome_def
      del: foldl_Cons)

lemma normalize_items_empty: "normalize_items [] w = \<lparr> len = 0, titles = [] \<rparr>"
  by (simp add: normalize_items_def normalize_unique_def array_sort_def)

lemma onSubmit_begin_ready:
  assumes "busy a = False"
    and "page a = \<lparr> q_el = Some v, variations_el = Some wantVar, images_el = Some wantImg,
                     status_el = Some st, results_el = Some r \<rparr>"
  shows "onSubmit_begin a =
           (Started (trim v) wantVar wantImg,
            a\<lparr> busy := True,
               page := \<lparr> q_el = Some v, variations_el = Some wantVar, images_el = Some wantImg,
                         status_el = Some Loading, results_el = Some Blank \<rparr> \<rparr>)"
  using assms by (simp add: onSubmit_begin_def Let_def)

lemma fold_on_progress:
  "evs \<noteq> [] \<Longrightarrow>
     fold on_progress evs a =
       a\<lparr> page := (page a)\<lparr> status_el := Some (LoadingPct (ev_pct (last evs))) \<rparr> \<rparr>"
proof (induction evs arbitrary: a)
  case Nil
  then show ?case by simp
next
  case (Cons e evs)
  then show ?case
    by (cases evs) (simp_all add: on_progress_def)
qed

lemma onSubmit_end_empty:
  "busy (onSubmit_end m [] a) = False \<and>
   lastJSON (onSubmit_end m [] a) = \<lparr> len = 0, titles = [] \<rparr> \<and>
   status_el (page (onSubmit_end m [] a)) = Some (Found 0) \<and>
   results_el (page (onSubmit_end m [] a)) = Some NoResults"
  by (simp add: onSubmit_end_def normalize_items_empty renderCards_def autosave_def Let_def)

lemma onSubmit_started:
  assumes "onSubmit_begin a = (Started q wantVar wantImg, a1)"
    and "loadAll_timed remote (expandQueries q wantVar) True = Some t"
  shows "onSubmit remote clock a =
           (Completed (emitted (pool t)),
            onSubmit_end \<lparr> query = q, variations = wantVar, images = wantImg,
                           timestamp = clock + now t \<rparr>
              (results (pool t)) (fold on_progress (emitted (pool t)) a1))"
  using assms by (simp add: onSubmit_def Let_def)

lemma discovery_pct_of:
  "pct_of (Suc 0) 34 = 3" "pct_of 2 34 = 6" "pct_of 3 34 = 9" "pct_of 4 34 = 12"
  "pct_of 5 34 = 15" "pct_of 6 34 = 18" "pct_of 7 34 = 21" "pct_of 8 34 = 24"
  "pct_of 9 34 = 26" "pct_of 10 34 = 29" "pct_of 11 34 = 32" "pct_of 12 34 = 35"
  "pct_of 13 34 = 38" "pct_of 14 34 = 41" "pct_of 15 34 = 44" "pct_of 16 34 = 47"
  "pct_of 17 34 = 50" "pct_of 18 34 = 53" "pct_of 19 34 = 56" "pct_of 20 34 = 59"
  "pct_of 21 34 = 62" "pct_of 22 34 = 65" "pct_of 23 34 = 68" "pct_of 24 34 = 71"
  "pct_of 25 34 = 74" "pct_of 26 34 = 76" "pct_of 27 34 = 79" "pct_of 28 34 = 82"
  "pct_of 29 34 = 85" "pct_of 30 34 = 88"
  by (rule pct_of_eqI; simp)+

lemma upt_1_31:
  "[1..<31] =
     [1, 2, 3, 4, 5, 6, 7, 8, 9, 10, 11, 12, 13, 14, 15, 16, 17, 18, 19, 20, 21, 22, 23, 24,
      25, 26, 27, 28, 29, 30 :: nat]"
  by (simp add: upt_conv_Cons)

lemma discovery_percents:
  "map ev_pct (map (progress_at 34) [1..<31]) =
     [3, 6, 9, 12, 15, 18, 21, 24, 26, 29, 32, 35, 38, 41, 44, 47, 50, 53, 56, 59, 62, 65,
      68, 71, 74, 76, 79, 82, 85, 88]"
  unfolding upt_1_31 by (simp add: progress_at_def discovery_pct_of)

lemma pct_of_30_of_34: "pct_of 30 34 = 88"
  by (rule discovery_pct_of)

lemma never_answers_times_out:
  "fetch_result (never_answers q) = (perRequestTimeoutMs CONFIG, None)"
  by (simp add: fetch_result_def never_answers_def)

lemma trim_blank: "trim '' '' = []"
  by (simp add: trim_def is_space_def)

lemma onSubmit_busy: "busy a \<Longrightarrow> onSubmit remote clock a = (Declined, a)"
  by (simp add: onSubmit_def onSubmit_begin_def)

lemma onSubmit_end_idle: "busy (onSubmit_end m raw_items a) = False"
  by (simp add: onSubmit_end_def Let_def)

lemma onSubmit_catch_idle: "busy (onSubmit_catch a) = False"
  by (simp add: onSubmit_catch_def Let_def)

section \<open>Query expansion: the claims\<close>

lemma expandQueries_q_variations:
  "base \<noteq> [] \<Longrightarrow>
     expandQueries_q base True =
       map (\<lambda>suffix. base @ suffix)
         ([[], '' movie'', '' series'', '' season'']
           @ map (\<lambda>c. [CHR '' '', c]) letters @ map (\<lambda>d. [CHR '' '', d]) digits)"
  by (simp add: expandQueries_q_def push_each_map Let_def comp_def)

lemma suffixes_distinct:
  "distinct ([[], '' movie'', '' series'', '' season'']
      @ map (\<lambda>c. [CHR '' '', c]) letters @ map (\<lambda>d. [CHR '' '', d]) digits)"
  by (simp add: letters_def digits_def)

lemma expandQueries_q_distinct:
  assumes "base \<noteq> []"
  shows "distinct (expandQueries_q base True)"
proof -
  have "inj (\<lambda>suffix. base @ suffix)"
    by (simp add: inj_on_def)
  then show ?thesis
    unfolding expandQueries_q_variations [OF assms]
    using suffixes_distinct by (simp only: distinct_map) (blast intro: inj_on_subset)
qed

lemma expandQueries_q_length: "base \<noteq> [] \<Longrightarrow> length (expandQueries_q base True) = 40"
  by (simp add: expandQueries_q_variations letters_def digits_def)

text \<open>
  Claim C6. For a non-empty term, \<^verbatim>\<open>expandQueries(term, false)\<close> is exactly the one-element
  list of the term. With variations the result has no duplicates, starts with the term
  and is no longer than the search cap of the configuration; the array built before
  the truncation holds the term, then the suffixes movie, series and season, then one
  query per letter a to z, then one per digit 0 to 9, in this order, and neither the
  removal of duplicates nor the truncation drops any of them.
\<close>

theorem expandQueries_nonempty_term:
  assumes "base \<noteq> []"
  shows "expandQueries base False = [base] \<and>
         distinct (expandQueries base True) \<and>
         hd (expandQueries base True) = base \<and>
         length (expandQueries base True) \<le> maxQueriesSearch CONFIG \<and>
         expandQueries_q base True =
           [base, base @ '' movie'', base @ '' series'', base @ '' season'']
             @ map (\<lambda>c. base @ '' '' @ [c]) ''abcdefghijklmnopqrstuvwxyz''
             @ map (\<lambda>d. base @ '' '' @ [d]) ''0123456789'' \<and>
         expandQueries base True = expandQueries_q base True"
proof -
  have one: "expandQueries base False = [base]"
    using assms
    by (simp add: expandQueries_def expandQueries_q_def spread_set_def set_add_def CONFIG_def)
  have full: "expandQueries base True = expandQueries_q base True"
    using assms expandQueries_q_distinct [OF assms] expandQueries_q_length [OF assms]
    by (simp add: expandQueries_def spread_set_distinct CONFIG_def)
  have pushed: "expandQueries_q base True =
      [base, base @ '' movie'', base @ '' series'', base @ '' season'']
        @ map (\<lambda>c. base @ '' '' @ [c]) ''abcdefghijklmnopqrstuvwxyz''
        @ map (\<lambda>d. base @ '' '' @ [d]) ''0123456789''"
    using assms
    by (simp add: expandQueries_q_def push_each_map letters_def digits_def)
  have first: "hd (expandQueries base True) = base"
    unfolding full pushed by simp
  have bound: "length (expandQueries base True) \<le> maxQueriesSearch CONFIG"
    unfolding full using expandQueries_q_length [OF assms] by (simp add: CONFIG_def)
  show ?thesis
    using one full pushed first bound expandQueries_q_distinct [OF assms] by simp
qed

theorem expandQueries_matrix_witness:
  "''matrix'' \<noteq> [] \<and>
   expandQueries ''matrix'' False = [''matrix''] \<and>
   distinct (expandQueries ''matrix'' True) \<and>
   hd (expandQueries ''matrix'' True) = ''matrix'' \<and>
   length (expandQueries ''matrix'' True) = 40 \<and>
   expandQueries ''matrix'' True ! 1 = ''matrix movie'' \<and>
   expandQueries ''matrix'' True ! 4 = ''matrix a'' \<and>
   expandQueries ''matrix'' True ! 39 = ''matrix 9''"
  using expandQueries_nonempty_term [of "''matrix''"]
  by (simp add: CONFIG_def)

section \<open>The callback name: the claims\<close>

text \<open>
  Claim C2, as the specification states it, fails on the code: the prefix of the name is
  \<^verbatim>\<open>imdb$\<close>, and a character that is not a lowercase letter or a digit is replaced by an
  underscore, not removed. The query of the example has ASCII characters only, so the
  case tables beyond Latin-1 are not consulted; the identity stands for them.
\<close>

theorem jsonpCallbackName_counterexample:
  "jsonpCallbackName id (units ''The Matrix'') = units ''imdb$the_matrix'' \<and>
   spec_callbackName id (units ''The Matrix'') = units ''suggest$thematrix'' \<and>
   jsonpCallbackName id (units ''The Matrix'') \<noteq> spec_callbackName id (units ''The Matrix'')"
  by (simp add: jsonpCallbackName_def spec_callbackName_def toLowerCase_def lower_unit_def
        is_az09_def units_def)

text \<open>
  Claim C2, amended. For every query in which no surrogate stands alone, whatever the
  case tables of the host, the loader registers its callback under the name \<^verbatim>\<open>imdb$\<close>
  followed by the lowercased query in which every code unit other than a lowercase
  letter a to z or a digit is replaced by an underscore: the name has five code units
  and then one for each code unit of the lowercased query, the unit itself where it is
  such a letter or digit and the underscore elsewhere. On a query of code units below
  256 the lowercased query is the query with its capitals moved up by 32.
\<close>

theorem jsonpCallbackName_underscored:
  assumes "well_formed q"
  shows "window_cb (loadSuggest unicode q timeoutMs) = Some (jsonpCallbackName unicode q) \<and>
         take 5 (jsonpCallbackName unicode q) = units ''imdb$'' \<and>
         length (jsonpCallbackName unicode q) = 5 + length (toLowerCase unicode q) \<and>
         (\<forall>i < length (toLowerCase unicode q).
            jsonpCallbackName unicode q ! (5 + i) =
              (if is_az09 (toLowerCase unicode q ! i) then toLowerCase unicode q ! i
               else of_char CHR ''_'')) \<and>
         (list_all (\<lambda>u. u < 256) q \<longrightarrow> toLowerCase unicode q = map lower_unit q)"
  using assms
  by (simp add: loadSuggest_well_formed jsonpCallbackName_def length_replace_non_az09
        nth_append nth_replace_non_az09 toLowerCase_def units_def)

theorem jsonpCallbackName_underscored_witness:
  "well_formed (units ''Hi 5'') \<and>
   (2::nat) < length (toLowerCase id (units ''Hi 5'')) \<and>
   list_all (\<lambda>u. u < 256) (units ''Hi 5'') \<and>
   window_cb (loadSuggest id (units ''Hi 5'') 2500) = Some (units ''imdb$hi_5'') \<and>
   take 5 (jsonpCallbackName id (units ''Hi 5'')) = units ''imdb$'' \<and>
   length (jsonpCallbackName id (units ''Hi 5'')) = 5 + length ''hi 5'' \<and>
   jsonpCallbackName id (units ''Hi 5'') ! (5 + 0) = of_char CHR ''h'' \<and>
   jsonpCallbackName id (units ''Hi 5'') ! (5 + 2) = of_char CHR ''_''"
proof -
  have wf: "well_formed (units ''Hi 5'')"
    by (rule well_formed_units)
  have low: "toLowerCase id (units ''Hi 5'') = units ''hi 5''"
    by (simp add: toLowerCase_def lower_unit_def units_def)
  have name: "jsonpCallbackName id (units ''Hi 5'') = units ''imdb$hi_5''"
    by (simp add: jsonpCallbackName_def low is_az09_def) (simp add: units_def is_az09_def)
  note shape = jsonpCallbackName_underscored [OF wf, of id 2500]
  from shape have at: "\<And>i. i < 4 \<Longrightarrow> jsonpCallbackName id (units ''Hi 5'') ! (5 + i) =
      (if is_az09 (units ''hi 5'' ! i) then units ''hi 5'' ! i else of_char CHR ''_'')"
    unfolding low by (simp add: units_def)
  have "jsonpCallbackName id (units ''Hi 5'') ! (5 + 0) = of_char CHR ''h''"
    using at [of 0] by (simp add: is_az09_def units_def)
  moreover have "jsonpCallbackName id (units ''Hi 5'') ! (5 + 2) = of_char CHR ''_''"
    using at [of 2] by (simp add: is_az09_def units_def)
  ultimately show ?thesis
    using shape name wf low units_below_256 [of "''Hi 5''"] by (simp add: units_def)
qed

section \<open>Normalization: the claims\<close>

text \<open>
  Claim C4. For every list of raw items and either value of the images flag, the entries
  of the catalog have pairwise different identifiers; every entry has an identifier that
  is present and starts with \<^verbatim>\<open>tt\<close>, and is the entry made from the first item of the
  input that carries this identifier; every accepted identifier of the input occurs; the
  entries are in ascending order of rank with the missing ranks last; and the entries
  of one rank stand in the order they have in the array before the sort, which is a
  subsequence of the accepted items in input order.
\<close>

theorem normalize_entries:
  "distinct (map entry_id (titles (normalize_items items w))) \<and>
   (\<forall>e \<in> set (titles (normalize_items items w)).
      entry_id e \<noteq> [] \<and> take 2 (entry_id e) = ''tt'' \<and>
      (\<exists>it. find (\<lambda>x. accepted_id x = Some (entry_id e)) items = Some (Obj it) \<and>
            e = to_entry (entry_id e) it w)) \<and>
   set (map entry_id (titles (normalize_items items w))) = set (List.map_filter accepted_id items) \<and>
   sorted_wrt (\<lambda>a b. rank_le (rank a) (rank b)) (titles (normalize_items items w)) \<and>
   (\<forall>r. filter (\<lambda>e. rank e = r) (titles (normalize_items items w))
        = filter (\<lambda>e. rank e = r) (normalize_unique items w)) \<and>
   subseq (normalize_unique items w) (collect items w) \<and>
   map entry_id (collect items w) = List.map_filter accepted_id items \<and>
   len (normalize_items items w) = length (titles (normalize_items items w))"
proof -
  have order: "subseq (normalize_unique items w) (collect items w)"
    by (simp add: normalize_unique_def dedup_by_id_subseq)
  have count: "len (normalize_items items w) = length (titles (normalize_items items w))"
    by (simp add: normalize_items_def Let_def)
  show ?thesis
    using titles_distinct [of items w] titles_members [of _ items w] titles_ids [of items w]
      titles_sorted [of items w] titles_stable [of _ items w] collect_ids [of items w]
      order count
    by blast
qed

theorem normalize_entries_witness:
  "map (\<lambda>e. (entry_id e, title e, rank e)) (titles (normalize_items sample_items True)) =
     [(''tt1'', ''A'', Some 1), (''tt4'', ''D'', Some 1), (''tt2'', ''B'', Some 2),
      (''tt3'', [], None)] \<and>
   distinct (map entry_id (titles (normalize_items sample_items True))) \<and>
   sorted_wrt (\<lambda>a b. rank_le (rank a) (rank b)) (titles (normalize_items sample_items True)) \<and>
   filter (\<lambda>e. rank e = Some 1) (titles (normalize_items sample_items True))
     = filter (\<lambda>e. rank e = Some 1) (normalize_unique sample_items True) \<and>
   len (normalize_items sample_items True) = 4"
  using normalize_entries [of sample_items True] sample_normalized
  by (simp add: sample_items_def normalize_eval)

text \<open>
  Claim C5. Normalizing is idempotent: the entries of a catalog, read back as raw items
  and normalized under the same images flag, give the same catalog.
\<close>

theorem normalize_idempotent:
  "normalize_items (map raw_of_entry (titles (normalize_items xs w))) w = normalize_items xs w"
proof -
  let ?es = "titles (normalize_items xs w)"
  have "\<forall>e \<in> set ?es. \<exists>i it. i \<noteq> [] \<and> take 2 i = ''tt'' \<and> e = to_entry i it w"
    using titles_members [of _ xs w] by blast
  then have c: "collect (map raw_of_entry ?es) w = ?es"
    by (rule collect_raw_of_entry)
  have u: "normalize_unique (map raw_of_entry ?es) w = ?es"
    using titles_distinct [of xs w]
    by (simp add: normalize_unique_def c dedup_by_id_distinct)
  have "array_sort by_rank ?es = ?es"
    using titles_sorted [of xs w] by (rule array_sort_sorted_id)
  with u show ?thesis
    by (simp add: normalize_items_def Let_def)
qed

text \<open>
  Claim C10. With the images flag set, an image field that is present but falsy becomes
  null: an empty image URL, a width of zero and a height of zero of an accepted item
  all give an entry whose field is \<^const>\<open>None\<close>.
\<close>

theorem normalize_falsy_image:
  assumes "accepted_id (Obj it) = Some i" and "item_i it = Some im"
  shows "titles (normalize_items [Obj it] True) = [to_entry i it True] \<and>
         (imageUrl im = Some [] \<longrightarrow> image_url (to_entry i it True) = None) \<and>
         (width im = Some 0 \<longrightarrow> image_width (to_entry i it True) = None) \<and>
         (height im = Some 0 \<longrightarrow> image_height (to_entry i it True) = None)"
  using assms
  by (simp add: normalize_items_def normalize_unique_def array_sort_def to_entry_def
        str_or_null_def num_or_null_def)

theorem normalize_falsy_image_witness:
  "accepted_id (sample_items ! 4) = Some ''tt1'' \<and>
   item_i (case sample_items ! 4 of Obj it \<Rightarrow> it) =
     Some \<lparr> imageUrl = Some [], width = Some 0, height = Some 0 \<rparr> \<and>
   map (\<lambda>e. (image_url e, image_width e, image_height e))
     (titles (normalize_items [sample_items ! 4] True)) = [(None, None, None)]"
proof -
  let ?it = "\<lparr> item_id = Some ''tt1'', item_l = Some ''A'', item_q = Some ''feature'',
            item_y = None, item_rank = Some 1,
            item_i = Some \<lparr> imageUrl = Some [], width = Some 0, height = Some 0 \<rparr> \<rparr>"
  have it: "sample_items ! 4 = Obj ?it"
    by (simp add: sample_items_def)
  have acc: "accepted_id (Obj ?it) = Some ''tt1''"
    by (simp add: accepted_id_def starts_tt_def)
  have img: "item_i ?it = Some \<lparr> imageUrl = Some [], width = Some 0, height = Some 0 \<rparr>"
    by simp
  from normalize_falsy_image [OF acc img] acc show ?thesis
    unfolding it by simp
qed

section \<open>The loader: the claims\<close>

text \<open>
  Claim C8 fails on the code at a query in which a surrogate stands alone, such as the
  one code unit D800. The first statement of the executor builds the URL, and
  \<^verbatim>\<open>encodeURIComponent\<close> throws on such a string: the promise of \<^verbatim>\<open>loadSuggest\<close> is
  rejected, before a timer, a callback or a script exists, and no transport event
  changes that. On every other query the promise is settled by the first transport
  event and resolves, with \<^verbatim>\<open>null\<close> unless the callback was called with a truthy
  argument (\<open>loadSuggest_resolves\<close>).
\<close>

theorem loadSuggest_lone_surrogate_rejects:
  "\<not> well_formed [55296] \<and>
   settled (loadSuggest id [55296] 2500) = Rejected URIError \<and>
   window_cb (loadSuggest id [55296] 2500) = None \<and>
   \<not> timer_armed (loadSuggest id [55296] 2500) \<and>
   settled (foldl deliver (loadSuggest id [55296] 2500)
     [CallbackInvoked Falsy, ScriptError, TimerFired]) = Rejected URIError"
proof -
  have lone: "\<not> well_formed [55296]"
    by (simp add: is_high_surrogate_def)
  have stays: "foldl deliver (loadSuggest id [55296] 2500)
      [CallbackInvoked Falsy, ScriptError, TimerFired] = loadSuggest id [55296] 2500"
    using lone by (rule foldl_deliver_rejected)
  show ?thesis
    unfolding stays using lone by (simp add: loadSuggest_lone_surrogate)
qed

section \<open>The worker pool: the claims\<close>

text \<open>
  Claim C9. On an empty query list \<^verbatim>\<open>loadAll\<close> has returned as soon as it is started,
  with no result, no call of the progress callback and nothing left for any later task
  to change, at time 0 on the clock. On every query list the workers started are as
  many as the smaller of the configured concurrency and the number of queries, each in
  flight on its own index, and no task changes their number.
\<close>

theorem loadAll_start_width:
  "returned (loadAll_start [] cb) \<and>
   results (loadAll_start [] cb) = [] \<and>
   emitted (loadAll_start [] cb) = [] \<and>
   exec evs (loadAll_start [] cb) = loadAll_start [] cb \<and>
   map_option (\<lambda>t. (now t, results (pool t), emitted (pool t))) (loadAll_timed remote [] cb)
     = Some (0, [], []) \<and>
   workers (loadAll_start qs cb) = map Fetching [0..<min (concurrency CONFIG) (length qs)] \<and>
   length (workers (exec evs (loadAll_start qs cb))) = min (concurrency CONFIG) (length qs)"
proof -
  have e: "loadAll_start [] cb =
      \<lparr> queries = [], has_callback = cb, cursor = 0, done_count = 0, canceled = False,
        results = [], workers = [], emitted = [] \<rparr>"
    by (simp add: loadAll_start_eq)
  have idle: "fire ev (loadAll_start [] cb) = loadAll_start [] cb" for ev
    unfolding e by (cases ev) (simp_all add: fire_def returned_def)
  have stay: "exec es (loadAll_start [] cb) = loadAll_start [] cb" for es
    unfolding exec_def by (induction es) (simp_all add: idle)
  have t: "loadAll_timed remote [] cb =
      Some \<lparr> pool = loadAll_start [] cb, now = 0, agenda = [] \<rparr>"
    by (simp add: loadAll_timed_def e clear_global_def returned_def)
  show ?thesis
    using stay [of evs] t exec_fixed [of evs "loadAll_start qs cb"]
    by (simp add: loadAll_start_eq returned_def)
qed

theorem loadAll_start_width_witness:
  "workers (loadAll_start [''a'', ''b''] True) = [Fetching 0, Fetching 1] \<and>
   length (workers (loadAll_start (expandQueries [] False) True)) = 6 \<and>
   length (workers (exec [FetchSettled 1 None, GlobalTimeout, SleepElapsed 1]
     (loadAll_start [''a'', ''b''] True))) = 2 \<and>
   returned (loadAll_start [] True) \<and>
   exec [GlobalTimeout, SleepElapsed 0] (loadAll_start [] True) = loadAll_start [] True"
  using loadAll_start_width [of True "[GlobalTimeout, SleepElapsed 0]" never_answers "[''a'', ''b'']"]
    loadAll_start_width [of True "[FetchSettled 1 None, GlobalTimeout, SleepElapsed 1]"
      never_answers "[''a'', ''b'']"]
    loadAll_start_width [of True "[]" never_answers "expandQueries [] False"]
  by (simp add: CONFIG_def discovery_queries upt_conv_Cons)

text \<open>
  Claim C1, as the specification states it, fails on the code: when every fetch of the
  34 discovery queries runs into its timeout, the global deadline cancels the call
  after 30 of them, and the last percentage delivered before \<^verbatim>\<open>loadAll\<close> returns is 88.
\<close>

theorem loadAll_progress_counterexample:
  "expandQueries [] False \<noteq> [] \<and>
   loadAll_timed never_answers (expandQueries [] False) True \<noteq> None \<and>
   returned (pool (the (loadAll_timed never_answers (expandQueries [] False) True))) \<and>
   canceled (pool (the (loadAll_timed never_answers (expandQueries [] False) True))) \<and>
   cursor (pool (the (loadAll_timed never_answers (expandQueries [] False) True))) = 30 \<and>
   ev_pct (last (emitted (pool (the (loadAll_timed never_answers (expandQueries [] False) True)))))
     = 88"
proof -
  have "loadAll_timed never_answers (expandQueries [] False) True =
      Some \<lparr> pool = \<lparr> queries = expandQueries [] False, has_callback = True, cursor = 30,
                       done_count = 30, canceled = True, results = [],
                       workers = [Exited, Exited, Exited, Exited, Exited, Exited],
                       emitted = map (progress_at 34) [1..<31] \<rparr>,
             now = 12650, agenda = [] \<rparr>"
    by (rule discovery_timeouts_run) (rule never_answers_times_out)
  then show ?thesis
    by (simp add: discovery_queries returned_def progress_at_def pct_of_30_of_34 last_map)
qed

text \<open>
  Claim C1, amended. For every call of \<^verbatim>\<open>loadAll\<close> over a non-empty query list with a
  progress callback, under every schedule of its tasks, the percentages delivered are
  non-decreasing. When the call has returned, at least one was delivered and the last
  one is the share of the queries that were claimed, in percent as
  \<^verbatim>\<open>Math.round((done / queries.length) * 100)\<close> computes it on doubles; it is 100 whenever
  the global deadline did not cancel the call. The same holds of every run on the clock.
\<close>

theorem loadAll_progress:
  assumes "qs \<noteq> []" and "s = exec evs (loadAll_start qs True)"
  shows "sorted (map ev_pct (emitted s)) \<and>
         (returned s \<longrightarrow>
            emitted s \<noteq> [] \<and>
            ev_pct (last (emitted s)) = pct_of (cursor s) (length qs) \<and>
            (\<not> canceled s \<longrightarrow> ev_pct (last (emitted s)) = 100)) \<and>
         (\<forall>t. loadAll_timed remote qs True = Some t \<longrightarrow>
            sorted (map ev_pct (emitted (pool t))) \<and> emitted (pool t) \<noteq> [] \<and>
            (\<not> canceled (pool t) \<longrightarrow> ev_pct (last (emitted (pool t))) = 100))"
proof -
  note facts = exec_start_facts [OF assms(1)]
  have any: "sorted (map ev_pct (emitted (exec es (loadAll_start qs True)))) \<and>
      (returned (exec es (loadAll_start qs True)) \<longrightarrow>
         emitted (exec es (loadAll_start qs True)) \<noteq> [] \<and>
         ev_pct (last (emitted (exec es (loadAll_start qs True))))
           = pct_of (cursor (exec es (loadAll_start qs True))) (length qs) \<and>
         (\<not> canceled (exec es (loadAll_start qs True)) \<longrightarrow>
            ev_pct (last (emitted (exec es (loadAll_start qs True)))) = 100))" for es
  proof -
    let ?s = "exec es (loadAll_start qs True)"
    from facts [of es] have f: "pool_inv ?s" "0 < cursor ?s" "has_callback ?s"
        "workers ?s \<noteq> []" "queries ?s = qs"
      by simp_all
    have "sorted (map ev_pct (emitted ?s))"
      using f(1) by (rule emitted_sorted)
    moreover have "emitted ?s \<noteq> [] \<and>
        ev_pct (last (emitted ?s)) = pct_of (cursor ?s) (length qs) \<and>
        (\<not> canceled ?s \<longrightarrow> ev_pct (last (emitted ?s)) = 100)" if "returned ?s"
      using returned_last_pct [OF f(1) that f(2) f(3) f(4)] unfolding f(5) by blast
    ultimately show ?thesis by blast
  qed
  have timed: "sorted (map ev_pct (emitted (pool t))) \<and> emitted (pool t) \<noteq> [] \<and>
      (\<not> canceled (pool t) \<longrightarrow> ev_pct (last (emitted (pool t))) = 100)"
    if "loadAll_timed remote qs True = Some t" for t
  proof -
    from loadAll_timed_execs [OF that] obtain es
      where "returned (pool t)" "pool t = exec es (loadAll_start qs True)"
      by blast
    with any [of es] show ?thesis by metis
  qed
  show ?thesis
    using any [of evs] timed unfolding assms(2) by blast
qed

theorem loadAll_progress_witness:
  "[''a''] \<noteq> [] \<and>
   returned (exec [FetchSettled 0 None, SleepElapsed 0] (loadAll_start [''a''] True)) \<and>
   \<not> canceled (exec [FetchSettled 0 None, SleepElapsed 0] (loadAll_start [''a''] True)) \<and>
   map ev_pct (emitted (exec [FetchSettled 0 None, SleepElapsed 0] (loadAll_start [''a''] True)))
     = [100] \<and>
   loadAll_timed never_answers [''a''] True \<noteq> None \<and>
   map ev_pct (emitted (pool (the (loadAll_timed never_answers [''a''] True)))) = [100]"
proof -
  let ?s = "exec [FetchSettled 0 None, SleepElapsed 0] (loadAll_start [''a''] True)"
  have s: "?s = \<lparr> queries = [''a''], has_callback = True, cursor = 1, done_count = 1,
                   canceled = False, results = [], workers = [Exited],
                   emitted = [progress_at 1 1] \<rparr>"
    by (simp add: exec_def pool_eval progress_at_def)
  have r: "returned ?s" "\<not> canceled ?s"
    unfolding s by (simp_all add: returned_def)
  from loadAll_progress [of "[''a'']" ?s "[FetchSettled 0 None, SleepElapsed 0]" never_answers] r
  have "ev_pct (last (emitted ?s)) = 100" by simp
  moreover have "emitted ?s = [progress_at 1 1]"
    unfolding s by simp
  ultimately show ?thesis
    using r single_query_run by (simp add: progress_at_def pct_of_full)
qed

section \<open>The session: the claims\<close>

text \<open>
  Claim C3, as the specification states it, fails on the code: in discovery mode with
  every fetch timing out the catalog is empty and the status line reports success, but
  no percentage shown during the session is 100.
\<close>

theorem discovery_timeouts_counterexample:
  "100 \<notin> set (percents (fst (onSubmit never_answers 0 idle_app))) \<and>
   last (percents (fst (onSubmit never_answers 0 idle_app))) = 88 \<and>
   len (lastJSON (snd (onSubmit never_answers 0 idle_app))) = 0 \<and>
   status_el (page (snd (onSubmit never_answers 0 idle_app))) = Some (Found 0)"
proof -
  have run: "loadAll_timed never_answers (expandQueries [] False) True =
      Some \<lparr> pool = \<lparr> queries = expandQueries [] False, has_callback = True, cursor = 30,
                       done_count = 30, canceled = True, results = [],
                       workers = [Exited, Exited, Exited, Exited, Exited, Exited],
                       emitted = map (progress_at 34) [1..<31] \<rparr>,
             now = 12650, agenda = [] \<rparr>"
    by (rule discovery_timeouts_run) (rule never_answers_times_out)
  have ready: "onSubmit_begin idle_app =
      (Started [] False True,
       idle_app\<lparr> busy := True,
         page := \<lparr> q_el = Some '' '', variations_el = Some False, images_el = Some True,
                   status_el = Some Loading, results_el = Some Blank \<rparr> \<rparr>)"
    by (simp add: onSubmit_begin_def idle_app_def trim_blank Let_def)
  note whole = onSubmit_started [OF ready run, of 0]
  show ?thesis
    unfolding whole using onSubmit_end_empty discovery_percents by (simp add: percents_def)
qed

text \<open>
  Claim C3, amended. When the submitted term is empty after trimming and every fetch
  resolves \<^verbatim>\<open>null\<close> at its timeout, the session ends with an empty catalog of count 0,
  the status line reports the titles found (the success status), the result list shows
  the "no results" placeholder and the busy flag is cleared. The percentages shown go up
  to 88: the global deadline of 12000 ms stops the pool after 30 of the 34 queries.
\<close>

theorem discovery_timeouts_session:
  assumes "busy a = False"
    and "page a = \<lparr> q_el = Some v, variations_el = Some wantVar, images_el = Some wantImg,
                     status_el = Some st, results_el = Some r \<rparr>"
    and "trim v = []"
    and "\<And>q. fetch_result (remote q) = (perRequestTimeoutMs CONFIG, None)"
  shows "percents (fst (onSubmit remote clock a)) =
           [3, 6, 9, 12, 15, 18, 21, 24, 26, 29, 32, 35, 38, 41, 44, 47, 50, 53, 56, 59, 62,
            65, 68, 71, 74, 76, 79, 82, 85, 88] \<and>
         len (lastJSON (snd (onSubmit remote clock a))) = 0 \<and>
         titles (lastJSON (snd (onSubmit remote clock a))) = [] \<and>
         status_el (page (snd (onSubmit remote clock a))) = Some (Found 0) \<and>
         results_el (page (snd (onSubmit remote clock a))) = Some NoResults \<and>
         busy (snd (onSubmit remote clock a)) = False"
proof -
  note run = discovery_timeouts_run [of remote wantVar, OF assms(4)]
  note ready = onSubmit_begin_ready [OF assms(1,2), unfolded assms(3)]
  note whole = onSubmit_started [OF ready run, of clock]
  show ?thesis
    unfolding whole using onSubmit_end_empty discovery_percents by (simp add: percents_def)
qed

theorem discovery_timeouts_session_witness:
  "busy idle_app = False \<and>
   trim '' '' = [] \<and>
   fetch_result (never_answers ''the'') = (perRequestTimeoutMs CONFIG, None) \<and>
   last (percents (fst (onSubmit never_answers 0 idle_app))) = 88 \<and>
   lastJSON (snd (onSubmit never_answers 0 idle_app)) = \<lparr> len = 0, titles = [] \<rparr> \<and>
   status_el (page (snd (onSubmit never_answers 0 idle_app))) = Some (Found 0) \<and>
   busy (snd (onSubmit never_answers 0 idle_app)) = False"
proof -
  have p: "page idle_app = \<lparr> q_el = Some '' '', variations_el = Some False,
      images_el = Some True, status_el = Some Idle, results_el = Some Blank \<rparr>"
    and b: "busy idle_app = False"
    by (simp_all add: idle_app_def)
  from discovery_timeouts_session [OF b p trim_blank never_answers_times_out, where clock = 0]
  show ?thesis
    using b trim_blank never_answers_times_out [of "''the''"] by simp
qed

text \<open>
  Claim C7 fails on the code at a page that has no status element. \<^verbatim>\<open>onSubmit\<close> sets the
  busy flag, then reads and writes the elements of the page before it enters the
  \<^verbatim>\<open>try\<close> block; the \<^verbatim>\<open>TypeError\<close> of the missing element leaves the function with the
  flag set, and every later submit is declined. The submit of a busy session changes
  nothing (\<open>onSubmit_busy\<close>), and both ends of the \<^verbatim>\<open>try\<close> block clear the flag
  (\<open>onSubmit_end_idle\<close>, \<open>onSubmit_catch_idle\<close>).
\<close>

theorem onSubmit_missing_status_stuck:
  "onSubmit remote clock (idle_app\<lparr> page := (page idle_app)\<lparr> status_el := None \<rparr> \<rparr>)
     = (Raised, idle_app\<lparr> busy := True, page := (page idle_app)\<lparr> status_el := None \<rparr> \<rparr>) \<and>
   onSubmit remote clock'
       (idle_app\<lparr> busy := True, page := (page idle_app)\<lparr> status_el := None \<rparr> \<rparr>)
     = (Declined, idle_app\<lparr> busy := True, page := (page idle_app)\<lparr> status_el := None \<rparr> \<rparr>)"
  by (simp add: onSubmit_def onSubmit_begin_def idle_app_def Let_def)

end
